theory Spec2Isabelle
  imports Main
begin

section \<open>Values of the interpreter\<close>

text \<open>
  The program \<^verbatim>\<open>export_elevenlabs_voices.py\<close> fetches a JSON document, checks one key and
  writes the document to \<^verbatim>\<open>voices.json\<close> and a table of seven columns to \<^verbatim>\<open>voices.csv\<close>.

  What \<^verbatim>\<open>json.loads\<close> returns is a value of the type \<open>json\<close>: \<^verbatim>\<open>None\<close>, a \<^verbatim>\<open>bool\<close>, an
  unbounded \<^verbatim>\<open>int\<close>, a \<^verbatim>\<open>float\<close>, a \<^verbatim>\<open>str\<close>, a \<^verbatim>\<open>list\<close> or a \<^verbatim>\<open>dict\<close> with \<^verbatim>\<open>str\<close> keys.
  A \<^verbatim>\<open>dict\<close> keeps its insertion order and is an association list here; a lookup takes the
  first entry of a key, and a \<^verbatim>\<open>dict\<close> proper has each key once (\<open>wf_json\<close> below).
  A \<^verbatim>\<open>str\<close> is a \<open>string\<close>, each \<open>char\<close> standing for the code point of the same number
  (U+0000 to U+00FF). A \<^verbatim>\<open>float\<close> is carried as the text that \<^verbatim>\<open>repr\<close> prints for it
  (\<^verbatim>\<open>0.5\<close>, \<^verbatim>\<open>1e+16\<close>, \<^verbatim>\<open>nan\<close>, \<^verbatim>\<open>inf\<close>, \<^verbatim>\<open>-inf\<close>), which identifies the float; no
  arithmetic is done on floats anywhere in the program.

  The file system and the encoding of a file are not part of the model: opening a file and
  writing a text to it succeed. The standard library (\<^verbatim>\<open>json\<close>, \<^verbatim>\<open>csv\<close>, \<^verbatim>\<open>urllib\<close>) is
  modelled as far as the program uses it.
\<close>

datatype json =
    JNull
  | JBool bool
  | JInt int
  | JFloat string
  | JStr string
  | JArr "json list"
  | JObj "(string \<times> json) list"

text \<open>The exceptions that the program can meet, and how a run of the program ends.\<close>

datatype py_error =
    AttributeError
  | TypeError
  | ValueError
  | JSONDecodeError
  | OtherError

datatype status =
    Done
  | Raised py_error
  | SysExit nat

text \<open>
  An uncaught exception ends the interpreter with exit code 1, \<^verbatim>\<open>sys.exit(n)\<close> with \<open>n\<close>,
  and falling off the end of \<^verbatim>\<open>main\<close> with 0.
\<close>

fun exit_code :: "status \<Rightarrow> nat" where
  "exit_code Done = 0"
| "exit_code (Raised e) = 1"
| "exit_code (SysExit n) = n"

fun and_then :: "'e + 'a \<Rightarrow> ('a \<Rightarrow> 'e + 'b) \<Rightarrow> 'e + 'b" where
  "and_then (Inl e) f = Inl e"
| "and_then (Inr a) f = f a"

subsection \<open>Truth value, \<^verbatim>\<open>dict.get\<close>, iteration\<close>

text \<open>\<^verbatim>\<open>bool(x)\<close>: what \<^verbatim>\<open>x or y\<close> tests.\<close>

fun truthy :: "json \<Rightarrow> bool" where
  "truthy JNull = False"
| "truthy (JBool b) = b"
| "truthy (JInt i) = (i \<noteq> 0)"
| "truthy (JFloat s) = (s \<noteq> ''0.0'' \<and> s \<noteq> ''-0.0'')"
| "truthy (JStr s) = (s \<noteq> [])"
| "truthy (JArr xs) = (xs \<noteq> [])"
| "truthy (JObj m) = (m \<noteq> [])"

definition py_or :: "json \<Rightarrow> json \<Rightarrow> json" where
  "py_or x y = (if truthy x then x else y)"

definition dict_get :: "(string \<times> json) list \<Rightarrow> string \<Rightarrow> json \<Rightarrow> json" where
  "dict_get m k d = (case map_of m k of None \<Rightarrow> d | Some v \<Rightarrow> v)"

text \<open>
  \<^verbatim>\<open>x.get(k, d)\<close>: only a \<^verbatim>\<open>dict\<close> has the method; on every other value of \<open>json\<close> the
  attribute lookup raises \<^verbatim>\<open>AttributeError\<close>.
\<close>

fun py_get :: "json \<Rightarrow> string \<Rightarrow> json \<Rightarrow> py_error + json" where
  "py_get (JObj m) k d = Inr (dict_get m k d)"
| "py_get v k d = Inl AttributeError"

text \<open>
  \<^verbatim>\<open>for v in x\<close>: a list gives its elements, a \<^verbatim>\<open>dict\<close> its keys, a \<^verbatim>\<open>str\<close> its characters;
  the other values are not iterable (\<^verbatim>\<open>TypeError\<close>). \<^verbatim>\<open>len(x)\<close> is the number of these.
\<close>

fun py_iter :: "json \<Rightarrow> py_error + json list" where
  "py_iter (JArr xs) = Inr xs"
| "py_iter (JObj m) = Inr (map (\<lambda>kv. JStr (fst kv)) m)"
| "py_iter (JStr s) = Inr (map (\<lambda>c. JStr [c]) s)"
| "py_iter v = Inl TypeError"

text \<open>
  \<^verbatim>\<open>k in x\<close> for a \<^verbatim>\<open>str\<close> \<open>k\<close>: a key of a \<^verbatim>\<open>dict\<close>, an element of a list, a substring of a
  \<^verbatim>\<open>str\<close>; \<^verbatim>\<open>TypeError\<close> on the values that are no containers.
\<close>

fun is_substring :: "string \<Rightarrow> string \<Rightarrow> bool" where
  "is_substring p [] = (p = [])"
| "is_substring p (c # cs) = (take (length p) (c # cs) = p \<or> is_substring p cs)"

fun py_in :: "string \<Rightarrow> json \<Rightarrow> py_error + bool" where
  "py_in k (JObj m) = Inr (k \<in> fst ` set m)"
| "py_in k (JArr xs) = Inr (JStr k \<in> set xs)"
| "py_in k (JStr s) = Inr (is_substring k s)"
| "py_in k v = Inl TypeError"

subsection \<open>\<^verbatim>\<open>str\<close> and \<^verbatim>\<open>repr\<close>\<close>

definition digit_char :: "nat \<Rightarrow> char" where
  "digit_char d = ''0123456789'' ! d"

fun show_nat :: "nat \<Rightarrow> string" where
  "show_nat n = (if n < 10 then [digit_char n] else show_nat (n div 10) @ [digit_char (n mod 10)])"

declare show_nat.simps [simp del]

definition show_int :: "int \<Rightarrow> string" where
  "show_int i = (if i < 0 then CHR ''-'' # show_nat (nat (- i)) else show_nat (nat i))"

definition hex_char :: "nat \<Rightarrow> char" where
  "hex_char d = ''0123456789abcdef'' ! d"

definition hex2 :: "char \<Rightarrow> string" where
  "hex2 c = [hex_char (of_char c div 16), hex_char (of_char c mod 16)]"

definition join :: "string \<Rightarrow> string list \<Rightarrow> string" where
  "join sep xs = (case xs of [] \<Rightarrow> [] | y # ys \<Rightarrow> y @ concat (map (\<lambda>z. sep @ z) ys))"

text \<open>
  \<^verbatim>\<open>repr\<close> of a \<^verbatim>\<open>str\<close>: single quotes, unless the text has a single quote and no double
  quote; the quote and the backslash escaped; \<^verbatim>\<open>\t \n \r\<close>; the other code points that are
  not printable as \<^verbatim>\<open>\xhh\<close> (below U+0100 these are the controls, U+007F to U+00A0 and
  U+00AD).
\<close>

definition printable :: "char \<Rightarrow> bool" where
  "printable c = (let n = of_char c :: nat in 32 \<le> n \<and> n < 127 \<or> 160 < n \<and> n \<noteq> 173)"

definition repr_char :: "char \<Rightarrow> char \<Rightarrow> string" where
  "repr_char q c =
     (if c = q \<or> c = CHR 0x5C then [CHR 0x5C, c]
      else if c = CHR 0x09 then [CHR 0x5C, CHR ''t'']
      else if c = CHR 0x0A then [CHR 0x5C, CHR ''n'']
      else if c = CHR 0x0D then [CHR 0x5C, CHR ''r'']
      else if printable c then [c]
      else [CHR 0x5C, CHR ''x''] @ hex2 c)"

definition repr_str :: "string \<Rightarrow> string" where
  "repr_str s =
     (let q = (if CHR 0x27 \<in> set s \<and> CHR 0x22 \<notin> set s then CHR 0x22 else CHR 0x27)
      in q # concat (map (repr_char q) s) @ [q])"

fun py_repr :: "json \<Rightarrow> string"
  and py_repr_list :: "json list \<Rightarrow> string list"
  and py_repr_items :: "(string \<times> json) list \<Rightarrow> string list" where
  "py_repr JNull = ''None''"
| "py_repr (JBool b) = (if b then ''True'' else ''False'')"
| "py_repr (JInt i) = show_int i"
| "py_repr (JFloat s) = s"
| "py_repr (JStr s) = repr_str s"
| "py_repr (JArr xs) = ''['' @ join '', '' (py_repr_list xs) @ '']''"
| "py_repr (JObj m) = ''{'' @ join '', '' (py_repr_items m) @ ''}''"
| "py_repr_list [] = []"
| "py_repr_list (x # xs) = py_repr x # py_repr_list xs"
| "py_repr_items [] = []"
| "py_repr_items ((k, v) # m) = (repr_str k @ '': '' @ py_repr v) # py_repr_items m"

section \<open>The CSV writer\<close>

text \<open>
  \<^verbatim>\<open>csv.DictWriter(f, fieldnames=fieldnames, quoting=csv.QUOTE_ALL)\<close> with the default
  dialect: delimiter \<^verbatim>\<open>,\<close>, quote character \<^verbatim>\<open>"\<close> doubled inside a field, line terminator
  \<^verbatim>\<open>\r\n\<close> (the file is opened with \<^verbatim>\<open>newline=""\<close>, so the terminator is written as it is).
  A field that is a \<^verbatim>\<open>str\<close> is written as it is, \<^verbatim>\<open>None\<close> as the empty text and every other
  value as its \<^verbatim>\<open>str()\<close>.
\<close>

definition fieldnames :: "string list" where
  "fieldnames = [''voice_id'', ''name'', ''category'', ''gender'', ''age'', ''accent'', ''description'']"

fun field_text :: "json \<Rightarrow> string" where
  "field_text (JStr s) = s"
| "field_text JNull = []"
| "field_text v = py_repr v"

definition quote_field :: "string \<Rightarrow> string" where
  "quote_field s =
     CHR 0x22 # concat (map (\<lambda>c. if c = CHR 0x22 then [CHR 0x22, CHR 0x22] else [c]) s) @ [CHR 0x22]"

definition writer_writerow :: "json list \<Rightarrow> string" where
  "writer_writerow fields = join '','' (map (quote_field \<circ> field_text) fields) @ [CHR 0x0D, CHR 0x0A]"

text \<open>
  \<^verbatim>\<open>DictWriter._dict_to_list\<close>: a key of the row that is no field name raises
  \<^verbatim>\<open>ValueError\<close> (\<^verbatim>\<open>extrasaction="raise"\<close>); a field name that the row lacks gives
  \<^verbatim>\<open>restval\<close>, the empty text.
\<close>

definition dict_to_list :: "(string \<times> json) list \<Rightarrow> py_error + json list" where
  "dict_to_list rowdict =
     (if \<exists>k \<in> fst ` set rowdict. k \<notin> set fieldnames then Inl ValueError
      else Inr (map (\<lambda>key. dict_get rowdict key (JStr [])) fieldnames))"

definition DictWriter_writerow :: "(string \<times> json) list \<Rightarrow> py_error + string" where
  "DictWriter_writerow rowdict = and_then (dict_to_list rowdict) (\<lambda>fields. Inr (writer_writerow fields))"

definition writeheader :: "py_error + string" where
  "writeheader = DictWriter_writerow (zip fieldnames (map JStr fieldnames))"

section \<open>The program\<close>

text \<open>
  The world of a run: the files by name, the lines printed on standard output, and the
  requests sent to the network, oldest first.
\<close>

record request =
  url :: string
  http_method :: string
  headers :: "(string \<times> string) list"

record world =
  files :: "string \<Rightarrow> string option"
  stdout :: "string list"
  requests :: "request list"

definition print :: "string \<Rightarrow> world \<Rightarrow> world" where
  "print line w = w\<lparr>stdout := stdout w @ [line]\<rparr>"

definition write_file :: "string \<Rightarrow> string \<Rightarrow> world \<Rightarrow> world" where
  "write_file filename text w = w\<lparr>files := (files w)(filename \<mapsto> text)\<rparr>"

subsection \<open>\<^verbatim>\<open>export_to_csv\<close>\<close>

text \<open>Lines 55 to 64: the row of one voice, a \<^verbatim>\<open>dict\<close> of seven entries.\<close>

definition voice_row :: "json \<Rightarrow> py_error + (string \<times> json) list" where
  "voice_row v =
     and_then (py_get v ''labels'' (JObj [])) (\<lambda>l.
     let labels = py_or l (JObj []) in
     and_then (py_get v ''voice_id'' (JStr [])) (\<lambda>voice_id.
     and_then (py_get v ''name'' (JStr [])) (\<lambda>name.
     and_then (py_get v ''category'' (JStr [])) (\<lambda>category.
     and_then (py_get labels ''gender'' (JStr [])) (\<lambda>gender.
     and_then (py_get labels ''age'' (JStr [])) (\<lambda>age.
     and_then (py_get labels ''accent'' (JStr [])) (\<lambda>accent.
     and_then (py_get v ''description'' (JStr [])) (\<lambda>description.
     Inr [(''voice_id'', voice_id), (''name'', name), (''category'', category),
          (''gender'', gender), (''age'', age), (''accent'', accent),
          (''description'', description)]))))))))"

text \<open>
  Lines 54 to 65, the loop: \<open>f\<close> is the text written to the file so far. An exception
  leaves the loop with the text written before it.
\<close>

fun write_voices :: "json list \<Rightarrow> string \<Rightarrow> string \<times> py_error option" where
  "write_voices [] f = (f, None)"
| "write_voices (v # vs) f =
     (case and_then (voice_row v) DictWriter_writerow of
        Inl e \<Rightarrow> (f, Some e)
      | Inr line \<Rightarrow> write_voices vs (f @ line))"

text \<open>
  Lines 38 to 67. \<^verbatim>\<open>data.get\<close> comes before the file is opened; opening the file for
  writing empties it, and the \<^verbatim>\<open>with\<close> block closes it with what was written when an
  exception passes through.
\<close>

definition export_to_csv :: "json \<Rightarrow> string \<Rightarrow> world \<Rightarrow> status \<times> world" where
  "export_to_csv data filename w =
     (case py_get data ''voices'' (JArr []) of
        Inl e \<Rightarrow> (Raised e, w)
      | Inr voices \<Rightarrow>
          (case writeheader of
             Inl e \<Rightarrow> (Raised e, write_file filename [] w)
           | Inr header \<Rightarrow>
               (case py_iter voices of
                  Inl e \<Rightarrow> (Raised e, write_file filename header w)
                | Inr vs \<Rightarrow>
                    (case write_voices vs header of
                       (f, Some e) \<Rightarrow> (Raised e, write_file filename f w)
                     | (f, None) \<Rightarrow>
                         (Done, print (''Wrote CSV with '' @ show_nat (length vs) @ '' voices to '' @ filename)
                                  (write_file filename f w))))))"

subsection \<open>\<^verbatim>\<open>json.dumps\<close> and \<^verbatim>\<open>export_to_json\<close>\<close>

text \<open>
  The encoder of \<^verbatim>\<open>json.dump(data, f, ensure_ascii=False, indent=2)\<close> and of
  \<^verbatim>\<open>json.dumps(data, indent=2)\<close>. With an indent the item separator is \<^verbatim>\<open>,\<close> and the key
  separator \<^verbatim>\<open>: \<close>; an empty list is \<^verbatim>\<open>[]\<close> and an empty \<^verbatim>\<open>dict\<close> \<^verbatim>\<open>{}\<close>; every item
  of another container stands on a line of its own, two spaces deeper than the container.
  In a string the quote, the backslash and the controls below U+0020 are escaped, and with
  \<^verbatim>\<open>ensure_ascii\<close> (the flag \<open>a\<close>) every code point from U+007F on as well.
\<close>

definition escape_char :: "bool \<Rightarrow> char \<Rightarrow> string" where
  "escape_char a c =
     (if c = CHR 0x22 then [CHR 0x5C, CHR 0x22]
      else if c = CHR 0x5C then [CHR 0x5C, CHR 0x5C]
      else if c = CHR 0x0A then [CHR 0x5C, CHR ''n'']
      else if c = CHR 0x0D then [CHR 0x5C, CHR ''r'']
      else if c = CHR 0x09 then [CHR 0x5C, CHR ''t'']
      else if c = CHR 0x08 then [CHR 0x5C, CHR ''b'']
      else if c = CHR 0x0C then [CHR 0x5C, CHR ''f'']
      else if (of_char c :: nat) < 32 \<or> a \<and> 127 \<le> (of_char c :: nat)
        then [CHR 0x5C, CHR ''u'', CHR ''0'', CHR ''0''] @ hex2 c
      else [c])"

definition encode_basestring :: "bool \<Rightarrow> string \<Rightarrow> string" where
  "encode_basestring a s = CHR 0x22 # concat (map (escape_char a) s) @ [CHR 0x22]"

definition floatstr :: "string \<Rightarrow> string" where
  "floatstr s =
     (if s = ''nan'' then ''NaN''
      else if s = ''inf'' then ''Infinity''
      else if s = ''-inf'' then ''-Infinity''
      else s)"

definition newline_indent :: "nat \<Rightarrow> string" where
  "newline_indent level = CHR 0x0A # concat (replicate level ''  '')"

fun iterencode :: "bool \<Rightarrow> nat \<Rightarrow> json \<Rightarrow> string"
  and iterencode_list :: "bool \<Rightarrow> nat \<Rightarrow> json list \<Rightarrow> string"
  and iterencode_dict :: "bool \<Rightarrow> nat \<Rightarrow> (string \<times> json) list \<Rightarrow> string" where
  "iterencode a level JNull = ''null''"
| "iterencode a level (JBool b) = (if b then ''true'' else ''false'')"
| "iterencode a level (JInt i) = show_int i"
| "iterencode a level (JFloat s) = floatstr s"
| "iterencode a level (JStr s) = encode_basestring a s"
| "iterencode a level (JArr []) = ''[]''"
| "iterencode a level (JArr (x # xs)) =
     ''['' @ newline_indent (Suc level) @ iterencode a (Suc level) x @
     iterencode_list a (Suc level) xs @ newline_indent level @ '']''"
| "iterencode a level (JObj []) = ''{}''"
| "iterencode a level (JObj ((k, v) # m)) =
     ''{'' @ newline_indent (Suc level) @ encode_basestring a k @ '': '' @
     iterencode a (Suc level) v @ iterencode_dict a (Suc level) m @ newline_indent level @ ''}''"
| "iterencode_list a level [] = []"
| "iterencode_list a level (x # xs) =
     '','' @ newline_indent level @ iterencode a level x @ iterencode_list a level xs"
| "iterencode_dict a level [] = []"
| "iterencode_dict a level ((k, v) # m) =
     '','' @ newline_indent level @ encode_basestring a k @ '': '' @ iterencode a level v @
     iterencode_dict a level m"

definition dumps :: "bool \<Rightarrow> json \<Rightarrow> string" where
  "dumps ensure_ascii data = iterencode ensure_ascii 0 data"

text \<open>Lines 32 to 35.\<close>

definition export_to_json :: "json \<Rightarrow> string \<Rightarrow> world \<Rightarrow> status \<times> world" where
  "export_to_json data filename w =
     (Done, print (''Wrote raw JSON to '' @ filename) (write_file filename (dumps False data) w))"

subsection \<open>\<^verbatim>\<open>fetch_voices\<close>\<close>

text \<open>
  What the network answers to a request: a response with its status code, its reason
  phrase and its body as \<^verbatim>\<open>read().decode("utf-8")\<close> gives it (\<open>None\<close> when reading or
  decoding raises); no connection (\<^verbatim>\<open>URLError\<close> with its reason); or any other exception of
  \<^verbatim>\<open>urlopen\<close>, which \<^verbatim>\<open>fetch_voices\<close> does not catch. \<^verbatim>\<open>urlopen\<close> returns the response when
  the status is 2xx and raises \<^verbatim>\<open>HTTPError\<close> on every other final status.
  The network \<open>urlopen\<close> and the parser \<open>loads\<close> (\<^verbatim>\<open>json.loads\<close>, \<open>None\<close> when it raises) are
  parameters of the program.
\<close>

datatype reply =
    Response nat string "string option"
  | URLError string
  | OtherFailure

definition API_URL :: string where
  "API_URL = ''https://api.elevenlabs.io/v1/voices''"

text \<open>
  \<^verbatim>\<open>urllib.request.Request(url)\<close> with no data is a GET request; \<^verbatim>\<open>add_header\<close> sets one
  header (the names of headers do not distinguish upper and lower case).
\<close>

definition Request :: "string \<Rightarrow> request" where
  "Request u = \<lparr>url = u, http_method = ''GET'', headers = []\<rparr>"

definition add_header :: "string \<Rightarrow> string \<Rightarrow> request \<Rightarrow> request" where
  "add_header key val req = req\<lparr>headers := (key, val) # filter (\<lambda>kv. fst kv \<noteq> key) (headers req)\<rparr>"

definition fetch_voices ::
  "(string \<Rightarrow> json option) \<Rightarrow> (request \<Rightarrow> reply) \<Rightarrow> string \<Rightarrow> world \<Rightarrow> (status + json) \<times> world" where
  "fetch_voices loads urlopen api_key w =
     (let req = add_header ''xi-api-key'' api_key (Request API_URL);
          w1 = w\<lparr>requests := requests w @ [req]\<rparr>
      in case urlopen req of
           Response code reason body \<Rightarrow>
             if 200 \<le> code \<and> code < 300 then
               (case body of
                  None \<Rightarrow> (Inl (Raised OtherError), w1)
                | Some text \<Rightarrow>
                    (case loads text of
                       None \<Rightarrow> (Inl (Raised JSONDecodeError), w1)
                     | Some data \<Rightarrow> (Inr data, w1)))
             else
               (let w2 = print (''HTTP error: '' @ show_nat code @ '' '' @ reason) w1;
                    w3 = (case body of
                            None \<Rightarrow> w2
                          | Some text \<Rightarrow> print (''Response body: '' @ text) w2)
                in (Inl (SysExit 1), w3))
         | URLError reason \<Rightarrow> (Inl (SysExit 1), print (''Connection error: '' @ reason) w1)
         | OtherFailure \<Rightarrow> (Inl (Raised OtherError), w1))"

subsection \<open>\<^verbatim>\<open>main\<close>\<close>

text \<open>
  \<^verbatim>\<open>str.strip()\<close> removes the white space at both ends; below U+0100 the white space of
  \<^verbatim>\<open>str.isspace\<close> is U+0009 to U+000D, U+001C to U+0020, U+0085 and U+00A0.
\<close>

definition isspace :: "char \<Rightarrow> bool" where
  "isspace c = (let n = of_char c :: nat in 9 \<le> n \<and> n \<le> 13 \<or> 28 \<le> n \<and> n \<le> 32 \<or> n = 133 \<or> n = 160)"

definition strip :: "string \<Rightarrow> string" where
  "strip s = rev (dropWhile isspace (rev (dropWhile isspace s)))"

text \<open>
  Lines 70 to 89; \<open>argv\<close> is \<^verbatim>\<open>sys.argv\<close>, the name of the script first. Each entry of
  \<open>stdout\<close> is the text of one call of \<^verbatim>\<open>print\<close>.
\<close>

definition main ::
  "(string \<Rightarrow> json option) \<Rightarrow> (request \<Rightarrow> reply) \<Rightarrow> string list \<Rightarrow> world \<Rightarrow> status \<times> world" where
  "main loads urlopen argv w =
     (if length argv < 2 then
        (SysExit 1, print ''Usage: python export_elevenlabs_voices.py ELEVENLABS_API_KEY'' w)
      else
        (let api_key = strip (argv ! 1) in
         if api_key = [] then (SysExit 1, print ''Error: empty API key.'' w)
         else
           (case fetch_voices loads urlopen api_key (print ''Fetching voices from ElevenLabs...'' w) of
              (Inl st, w2) \<Rightarrow> (st, w2)
            | (Inr data, w2) \<Rightarrow>
                (case py_in ''voices'' data of
                   Inl e \<Rightarrow> (Raised e, w2)
                 | Inr False \<Rightarrow>
                     (SysExit 1,
                      print (dumps True data)
                        (print (''Warning: '' @ [CHR 0x27] @ ''voices'' @ [CHR 0x27] @ '' key not in response. Raw response:'') w2))
                 | Inr True \<Rightarrow>
                     (case export_to_json data ''voices.json'' w2 of
                        (Done, w3) \<Rightarrow> export_to_csv data ''voices.csv'' w3
                      | (st, w3) \<Rightarrow> (st, w3))))))"

section \<open>Reading the outputs back\<close>

text \<open>
  The cells of the row of one voice, as texts: what \<^verbatim>\<open>writer.writerow(row)\<close> hands to the
  underlying writer, in the order of the field names.
\<close>

definition row_cells :: "json \<Rightarrow> py_error + string list" where
  "row_cells v =
     and_then (voice_row v) (\<lambda>row. and_then (dict_to_list row) (\<lambda>fields. Inr (map field_text fields)))"

definition render_row :: "string list \<Rightarrow> string" where
  "render_row cells = join '','' (map quote_field cells) @ [CHR 0x0D, CHR 0x0A]"

definition escape_quotes :: "string \<Rightarrow> string" where
  "escape_quotes s = concat (map (\<lambda>c. if c = CHR 0x22 then [CHR 0x22, CHR 0x22] else [c]) s)"

text \<open>
  A reader of the dialect in which every field is quoted: the rows of a text, or \<open>None\<close>
  when some field of the text is not enclosed in quotes. It is the automaton of
  \<^verbatim>\<open>csv.reader\<close> cut down to quoted fields: a field starts with a quote, a doubled quote
  inside it is one quote, and after the closing quote comes a comma (next field) or
  \<^verbatim>\<open>\r\n\<close> (end of the row). A line break inside a field belongs to the field, so the rows
  of a text are not its lines.
\<close>

datatype reader_state = Start_field | In_field | Quote_seen | CR_seen

fun reader ::
  "reader_state \<Rightarrow> string \<Rightarrow> string list \<Rightarrow> string list list \<Rightarrow> string \<Rightarrow> string list list option" where
  "reader Start_field field row rows [] = (if row = [] then Some (rev rows) else None)"
| "reader Start_field field row rows (c # cs) =
     (if c = CHR 0x22 then reader In_field [] row rows cs else None)"
| "reader In_field field row rows [] = None"
| "reader In_field field row rows (c # cs) =
     (if c = CHR 0x22 then reader Quote_seen field row rows cs
      else reader In_field (c # field) row rows cs)"
| "reader Quote_seen field row rows [] = None"
| "reader Quote_seen field row rows (c # cs) =
     (if c = CHR 0x22 then reader In_field (c # field) row rows cs
      else if c = CHR '','' then reader Start_field [] (rev field # row) rows cs
      else if c = CHR 0x0D then reader CR_seen field row rows cs
      else None)"
| "reader CR_seen field row rows [] = None"
| "reader CR_seen field row rows (c # cs) =
     (if c = CHR 0x0A then reader Start_field [] [] (rev (rev field # row) # rows) cs else None)"

definition read_csv :: "string \<Rightarrow> string list list option" where
  "read_csv text = reader Start_field [] [] [] text"

subsection \<open>\<^verbatim>\<open>json.loads\<close>\<close>

text \<open>
  The decoder of \<^verbatim>\<open>json.loads\<close>, to read \<^verbatim>\<open>voices.json\<close> back: white space is blank, tab,
  line feed and carriage return; a string runs to the next quote, with the escapes
  \<^verbatim>\<open>\" \\ \/ \b \f \n \r \t \uXXXX\<close> and no raw control character; a number is
  \<^verbatim>\<open>-?(0|[1-9][0-9]*)(\.[0-9]+)?([eE][-+]?[0-9]+)?\<close>, an \<^verbatim>\<open>int\<close> when it has neither fraction
  nor exponent and a \<^verbatim>\<open>float\<close> otherwise; \<^verbatim>\<open>NaN\<close>, \<^verbatim>\<open>Infinity\<close> and \<^verbatim>\<open>-Infinity\<close> are floats;
  of two items of a \<^verbatim>\<open>dict\<close> with the same key the later value stands, at the place of the
  first; text after the value, other than white space, is an error. \<open>None\<close> stands for
  the exception. A float literal is carried as its text: \<^verbatim>\<open>float(repr(x)) == x\<close>, so the
  texts that \<^verbatim>\<open>repr\<close> prints are read back as the floats they were printed for. An escape
  \<^verbatim>\<open>\uXXXX\<close> above U+00FF has no \<open>char\<close> and is refused here.
  The recursion of the decoder is on the text that is left; here it spends one unit of
  fuel for every value and every item, and \<^verbatim>\<open>json_loads\<close> gives it more units than the
  text has characters.
\<close>

definition is_ws :: "char \<Rightarrow> bool" where
  "is_ws c = (c = CHR '' '' \<or> c = CHR 0x09 \<or> c = CHR 0x0A \<or> c = CHR 0x0D)"

definition skip_ws :: "string \<Rightarrow> string" where
  "skip_ws s = dropWhile is_ws s"

definition is_digit :: "char \<Rightarrow> bool" where
  "is_digit c = (48 \<le> (of_char c :: nat) \<and> (of_char c :: nat) \<le> 57)"

definition digit_val :: "char \<Rightarrow> nat" where
  "digit_val c = of_char c - 48"

definition digits_val :: "string \<Rightarrow> nat" where
  "digits_val s = foldl (\<lambda>n c. 10 * n + digit_val c) 0 s"

definition int_of_text :: "string \<Rightarrow> int" where
  "int_of_text s = (case s of [] \<Rightarrow> 0 | c # r \<Rightarrow> if c = CHR ''-'' then - int (digits_val r) else int (digits_val s))"

definition hex_val :: "char \<Rightarrow> nat option" where
  "hex_val c =
     (let n = of_char c :: nat in
      if 48 \<le> n \<and> n \<le> 57 then Some (n - 48)
      else if 97 \<le> n \<and> n \<le> 102 then Some (n - 87)
      else if 65 \<le> n \<and> n \<le> 70 then Some (n - 55)
      else None)"

fun hex4 :: "string \<Rightarrow> nat option" where
  "hex4 [a, b, c, d] =
     (case (hex_val a, hex_val b, hex_val c, hex_val d) of
        (Some w, Some x, Some y, Some z) \<Rightarrow> Some (((w * 16 + x) * 16 + y) * 16 + z)
      | _ \<Rightarrow> None)"
| "hex4 s = None"

definition unescape :: "char \<Rightarrow> char option" where
  "unescape e =
     (if e = CHR 0x22 \<or> e = CHR 0x5C \<or> e = CHR ''/'' then Some e
      else if e = CHR ''b'' then Some (CHR 0x08)
      else if e = CHR ''f'' then Some (CHR 0x0C)
      else if e = CHR ''n'' then Some (CHR 0x0A)
      else if e = CHR ''r'' then Some (CHR 0x0D)
      else if e = CHR ''t'' then Some (CHR 0x09)
      else None)"

definition cons_fst :: "'a \<Rightarrow> ('a list \<times> 'b) option \<Rightarrow> ('a list \<times> 'b) option" where
  "cons_fst x r = map_option (\<lambda>p. (x # fst p, snd p)) r"

fun scanstring :: "string \<Rightarrow> (string \<times> string) option" where
  "scanstring [] = None"
| "scanstring (c # cs) =
     (if c = CHR 0x22 then Some ([], cs)
      else if c = CHR 0x5C then
        (case cs of
           [] \<Rightarrow> None
         | e # r \<Rightarrow>
             if e = CHR ''u'' then
               (case hex4 (take 4 r) of
                  None \<Rightarrow> None
                | Some n \<Rightarrow> if n < 256 then cons_fst (char_of n) (scanstring (drop 4 r)) else None)
             else
               (case unescape e of
                  None \<Rightarrow> None
                | Some ch \<Rightarrow> cons_fst ch (scanstring r)))
      else if (of_char c :: nat) < 32 then None
      else cons_fst c (scanstring cs))"

definition scan_int :: "string \<Rightarrow> (string \<times> string) option" where
  "scan_int s =
     (let sign = takeWhile (\<lambda>c. c = CHR ''-'') (take 1 s); r = drop (length sign) s in
      case r of
        [] \<Rightarrow> None
      | d # r' \<Rightarrow>
          if d = CHR ''0'' then Some (sign @ [d], r')
          else if is_digit d then Some (sign @ d # takeWhile is_digit r', dropWhile is_digit r')
          else None)"

definition scan_frac :: "string \<Rightarrow> string \<times> string" where
  "scan_frac s =
     (case s of
        p # d # r \<Rightarrow>
          if p = CHR ''.'' \<and> is_digit d then (p # d # takeWhile is_digit r, dropWhile is_digit r)
          else ([], s)
      | _ \<Rightarrow> ([], s))"

definition scan_exp :: "string \<Rightarrow> string \<times> string" where
  "scan_exp s =
     (case s of
        [] \<Rightarrow> ([], s)
      | e # r \<Rightarrow>
          if e = CHR ''e'' \<or> e = CHR ''E'' then
            (let sign = takeWhile (\<lambda>c. c = CHR ''-'' \<or> c = CHR ''+'') (take 1 r);
                 ds = drop (length sign) r
             in if takeWhile is_digit ds = [] then ([], s)
                else (e # sign @ takeWhile is_digit ds, dropWhile is_digit ds))
          else ([], s))"

definition match_number :: "string \<Rightarrow> (string \<times> string \<times> string \<times> string) option" where
  "match_number s =
     (case scan_int s of
        None \<Rightarrow> None
      | Some (i, r) \<Rightarrow>
          Some (i, fst (scan_frac r), fst (scan_exp (snd (scan_frac r))),
                snd (scan_exp (snd (scan_frac r)))))"

definition dict_set :: "(string \<times> json) list \<Rightarrow> string \<Rightarrow> json \<Rightarrow> (string \<times> json) list" where
  "dict_set d k v =
     (if k \<in> fst ` set d then map (\<lambda>kv. if fst kv = k then (k, v) else kv) d else d @ [(k, v)])"

definition dict_of_pairs :: "(string \<times> json) list \<Rightarrow> (string \<times> json) list" where
  "dict_of_pairs ps = foldl (\<lambda>d kv. dict_set d (fst kv) (snd kv)) [] ps"

fun scan_once :: "nat \<Rightarrow> string \<Rightarrow> (json \<times> string) option"
  and JSONArray :: "nat \<Rightarrow> string \<Rightarrow> (json list \<times> string) option"
  and JSONObject :: "nat \<Rightarrow> string \<Rightarrow> ((string \<times> json) list \<times> string) option" where
  "scan_once 0 s = None"
| "scan_once (Suc n) [] = None"
| "scan_once (Suc n) (c # cs) =
     (if c = CHR 0x22 then map_option (\<lambda>p. (JStr (fst p), snd p)) (scanstring cs)
      else if c = CHR ''{'' then
        (if take 1 (skip_ws cs) = ''}'' then Some (JObj [], drop 1 (skip_ws cs))
         else map_option (\<lambda>p. (JObj (dict_of_pairs (fst p)), snd p)) (JSONObject n (skip_ws cs)))
      else if c = CHR ''['' then
        (if take 1 (skip_ws cs) = '']'' then Some (JArr [], drop 1 (skip_ws cs))
         else map_option (\<lambda>p. (JArr (fst p), snd p)) (JSONArray n (skip_ws cs)))
      else if take 4 (c # cs) = ''null'' then Some (JNull, drop 4 (c # cs))
      else if take 4 (c # cs) = ''true'' then Some (JBool True, drop 4 (c # cs))
      else if take 5 (c # cs) = ''false'' then Some (JBool False, drop 5 (c # cs))
      else
        (case match_number (c # cs) of
           Some (i, f, e, r) \<Rightarrow>
             Some (if f = [] \<and> e = [] then JInt (int_of_text i) else JFloat (i @ f @ e), r)
         | None \<Rightarrow>
             if take 3 (c # cs) = ''NaN'' then Some (JFloat ''nan'', drop 3 (c # cs))
             else if take 8 (c # cs) = ''Infinity'' then Some (JFloat ''inf'', drop 8 (c # cs))
             else if take 9 (c # cs) = ''-Infinity'' then Some (JFloat ''-inf'', drop 9 (c # cs))
             else None))"
| "JSONArray 0 s = None"
| "JSONArray (Suc n) s =
     (case scan_once n s of
        None \<Rightarrow> None
      | Some (v, r) \<Rightarrow>
          if take 1 (skip_ws r) = '']'' then Some ([v], drop 1 (skip_ws r))
          else if take 1 (skip_ws r) = '','' then cons_fst v (JSONArray n (skip_ws (drop 1 (skip_ws r))))
          else None)"
| "JSONObject 0 s = None"
| "JSONObject (Suc n) s =
     (if take 1 s = [CHR 0x22] then
        (case scanstring (drop 1 s) of
           None \<Rightarrow> None
         | Some (k, r) \<Rightarrow>
             if take 1 (skip_ws r) = '':'' then
               (case scan_once n (skip_ws (drop 1 (skip_ws r))) of
                  None \<Rightarrow> None
                | Some (v, r') \<Rightarrow>
                    if take 1 (skip_ws r') = ''}'' then Some ([(k, v)], drop 1 (skip_ws r'))
                    else if take 1 (skip_ws r') = '','' then
                      cons_fst (k, v) (JSONObject n (skip_ws (drop 1 (skip_ws r'))))
                    else None)
             else None)
      else None)"

definition json_loads :: "string \<Rightarrow> json option" where
  "json_loads s =
     (case scan_once (Suc (length s)) (skip_ws s) of
        None \<Rightarrow> None
      | Some (v, r) \<Rightarrow> if skip_ws r = [] then Some v else None)"

text \<open>
  The values that \<^verbatim>\<open>json.loads\<close> can return: every \<^verbatim>\<open>dict\<close> has each key once, and every
  float is carried as a text that \<^verbatim>\<open>repr\<close> can print: \<^verbatim>\<open>nan\<close>, \<^verbatim>\<open>inf\<close>, \<^verbatim>\<open>-inf\<close> or a number
  with a fraction or an exponent.
\<close>

definition float_repr :: "string \<Rightarrow> bool" where
  "float_repr s =
     (s = ''nan'' \<or> s = ''inf'' \<or> s = ''-inf'' \<or>
      (case match_number s of
         None \<Rightarrow> False
       | Some (i, f, e, r) \<Rightarrow> r = [] \<and> (f \<noteq> [] \<or> e \<noteq> [])))"

fun wf_json :: "json \<Rightarrow> bool"
  and wf_list :: "json list \<Rightarrow> bool"
  and wf_items :: "(string \<times> json) list \<Rightarrow> bool" where
  "wf_json (JFloat s) = float_repr s"
| "wf_json (JArr xs) = wf_list xs"
| "wf_json (JObj m) = (distinct (map fst m) \<and> wf_items m)"
| "wf_json v = True"
| "wf_list [] = True"
| "wf_list (x # xs) = (wf_json x \<and> wf_list xs)"
| "wf_items [] = True"
| "wf_items ((k, v) # m) = (wf_json v \<and> wf_items m)"

text \<open>
  For the proofs: a character after which a number cannot go on; a text that the decoder
  reads as one value, whatever follows it; a text of white space.
\<close>

definition number_end :: "string \<Rightarrow> bool" where
  "number_end rest =
     (case rest of
        [] \<Rightarrow> True
      | c # r \<Rightarrow> \<not> is_digit c \<and> c \<noteq> CHR ''.'' \<and> c \<noteq> CHR ''e'' \<and> c \<noteq> CHR ''E'' \<and>
                 c \<noteq> CHR ''+'' \<and> c \<noteq> CHR ''-'')"

definition reads_value :: "string \<Rightarrow> json \<Rightarrow> bool" where
  "reads_value s v =
     (s \<noteq> [] \<and> \<not> is_ws (hd s) \<and> hd s \<noteq> CHR '']'' \<and>
      (\<forall>n rest. number_end rest \<longrightarrow> length s \<le> n \<longrightarrow> scan_once n (s @ rest) = Some (v, rest)))"

definition ws_text :: "string \<Rightarrow> bool" where
  "ws_text w = (\<forall>c \<in> set w. is_ws c)"

text \<open>The header row as it stands in the file.\<close>

definition header_text :: string where
  \<open>header_text =
     ''"voice_id","name","category","gender","age","accent","description"'' @ [CHR 0x0D, CHR 0x0A]\<close>

text \<open>
  The data model: a voice record is a mapping, and its \<^verbatim>\<open>labels\<close>, where it has any, are a
  mapping or a value that counts as false (\<^verbatim>\<open>None\<close> among them), for which line 55 puts the
  empty mapping. \<open>labels_of\<close> is the mapping that line 55 computes for such a record.
\<close>

fun voice_record :: "json \<Rightarrow> bool" where
  "voice_record (JObj m) =
     (case map_of m ''labels'' of
        None \<Rightarrow> True
      | Some (JObj l) \<Rightarrow> True
      | Some l \<Rightarrow> \<not> truthy l)"
| "voice_record v = False"

definition labels_of :: "(string \<times> json) list \<Rightarrow> (string \<times> json) list" where
  "labels_of m = (case map_of m ''labels'' of Some (JObj l) \<Rightarrow> l | _ \<Rightarrow> [])"

text \<open>A world with no file, nothing printed and no request sent.\<close>

definition world0 :: world where
  "world0 = \<lparr>files = Map.empty, stdout = [], requests = []\<rparr>"


text \<open>
  The request of line 12 and 13 for a key; a world after the request was sent; and what it
  means that the fetch of a run returned the parsed structure \<open>data\<close>: the argument is
  there and not empty when trimmed, the network answered the request with a 2xx status and a
  body, and the parser returned \<open>data\<close> for the body.
\<close>

definition voices_request :: "string \<Rightarrow> request" where
  "voices_request key = \<lparr>url = API_URL, http_method = ''GET'', headers = [(''xi-api-key'', key)]\<rparr>"

definition fetched :: "(string \<Rightarrow> json option) \<Rightarrow> (request \<Rightarrow> reply) \<Rightarrow> string list \<Rightarrow> json \<Rightarrow> bool" where
  "fetched loads urlopen argv data =
     (2 \<le> length argv \<and> strip (argv ! 1) \<noteq> [] \<and>
      (\<exists>code reason text.
          urlopen (voices_request (strip (argv ! 1))) = Response code reason (Some text) \<and>
          200 \<le> code \<and> code < 300 \<and> loads text = Some data))"

definition sent :: "string \<Rightarrow> world \<Rightarrow> world" where
  "sent key w = w\<lparr>requests := requests w @ [voices_request key]\<rparr>"

definition fetching :: string where
  "fetching = ''Fetching voices from ElevenLabs...''"

definition warning :: string where
  "warning = ''Warning: '' @ [CHR 0x27] @ ''voices'' @ [CHR 0x27] @ '' key not in response. Raw response:''"

definition usage :: string where
  "usage = ''Usage: python export_elevenlabs_voices.py ELEVENLABS_API_KEY''"

section \<open>Properties of the CSV export\<close>

subsection \<open>The reader reads what the writer writes\<close>

lemma quote_field_escape: "quote_field s = CHR 0x22 # escape_quotes s @ [CHR 0x22]"
  by (simp add: quote_field_def escape_quotes_def)

lemma reader_in_field:
  "c \<noteq> CHR 0x22 \<Longrightarrow>
   reader In_field acc row rows (escape_quotes s @ CHR 0x22 # c # rest) =
   reader Quote_seen (rev s @ acc) row rows (c # rest)"
proof (induction s arbitrary: acc)
  case Nil
  then show ?case by (simp add: escape_quotes_def)
next
  case (Cons a s)
  have IH: "reader In_field (a # acc) row rows (escape_quotes s @ CHR 0x22 # c # rest) =
     reader Quote_seen (rev s @ a # acc) row rows (c # rest)"
    using Cons.IH [OF Cons.prems] .
  have e: "escape_quotes (a # s) = (if a = CHR 0x22 then [CHR 0x22, CHR 0x22] else [a]) @ escape_quotes s"
    by (simp add: escape_quotes_def)
  show ?case
  proof (cases "a = CHR 0x22")
    case True
    with IH show ?thesis unfolding e by simp
  next
    case False
    with IH show ?thesis unfolding e by simp
  qed
qed

lemma reader_field:
  "c \<noteq> CHR 0x22 \<Longrightarrow>
   reader Start_field fld row rows (quote_field s @ c # rest) =
   reader Quote_seen (rev s) row rows (c # rest)"
  using reader_in_field [of c "[]" row rows s rest]
  by (simp add: quote_field_escape)

lemma join_Cons: "join sep (x # y # ys) = x @ sep @ join sep (y # ys)"
  by (simp add: join_def)

lemma join_single: "join sep [x] = x"
  by (simp add: join_def)

lemma reader_row:
  "reader Start_field fld row rows (render_row (c # cs) @ rest) =
   reader Start_field [] [] ((rev row @ c # cs) # rows) rest"
proof (induction cs arbitrary: c row fld)
  case Nil
  show ?case
    using reader_field [of "CHR 0x0D" fld row rows c "CHR 0x0A # rest"]
    by (simp add: render_row_def join_single)
next
  case (Cons d cs)
  have "reader Start_field fld row rows (render_row (c # d # cs) @ rest) =
        reader Start_field fld row rows (quote_field c @ CHR '','' # render_row (d # cs) @ rest)"
    by (simp add: render_row_def join_Cons)
  also have "\<dots> = reader Quote_seen (rev c) row rows (CHR '','' # render_row (d # cs) @ rest)"
    by (rule reader_field) simp
  also have "\<dots> = reader Start_field [] (c # row) rows (render_row (d # cs) @ rest)"
    by simp
  also have "\<dots> = reader Start_field [] [] ((rev (c # row) @ d # cs) # rows) rest"
    by (rule Cons.IH)
  finally show ?case by simp
qed

lemma reader_rows:
  "\<forall>r \<in> set rs. r \<noteq> [] \<Longrightarrow>
   reader Start_field fld [] rows (concat (map render_row rs)) = Some (rev rows @ rs)"
proof (induction rs arbitrary: rows fld)
  case Nil
  show ?case by simp
next
  case (Cons r rs)
  then obtain c cs where r: "r = c # cs" by (cases r) auto
  have "reader Start_field fld [] rows (concat (map render_row (r # rs))) =
        reader Start_field [] [] (r # rows) (concat (map render_row rs))"
    using reader_row [of fld "[]" rows c cs "concat (map render_row rs)"] by (simp add: r)
  also have "\<dots> = Some (rev (r # rows) @ rs)"
    using Cons.prems by (intro Cons.IH) simp
  finally show ?case by simp
qed

lemma read_csv_render:
  "\<forall>r \<in> set rs. r \<noteq> [] \<Longrightarrow> read_csv (concat (map render_row rs)) = Some rs"
  using reader_rows [of rs "[]" "[]"] by (simp add: read_csv_def)

subsection \<open>The row of a voice record\<close>

lemma py_or_labels:
  "voice_record (JObj m) \<Longrightarrow> py_or (dict_get m ''labels'' (JObj [])) (JObj []) = JObj (labels_of m)"
  by (auto simp: py_or_def dict_get_def labels_of_def split: option.splits json.splits)

lemma voice_row_record:
  assumes "voice_record (JObj m)"
  shows "voice_row (JObj m) =
     Inr [(''voice_id'', dict_get m ''voice_id'' (JStr [])),
          (''name'', dict_get m ''name'' (JStr [])),
          (''category'', dict_get m ''category'' (JStr [])),
          (''gender'', dict_get (labels_of m) ''gender'' (JStr [])),
          (''age'', dict_get (labels_of m) ''age'' (JStr [])),
          (''accent'', dict_get (labels_of m) ''accent'' (JStr [])),
          (''description'', dict_get m ''description'' (JStr []))]"
  using py_or_labels [OF assms] by (simp add: voice_row_def)

lemma dict_to_list_row:
  "dict_to_list [(''voice_id'', a), (''name'', b), (''category'', c), (''gender'', d),
                 (''age'', e), (''accent'', f), (''description'', g)] = Inr [a, b, c, d, e, f, g]"
  by (simp add: dict_to_list_def fieldnames_def dict_get_def)

lemma row_cells_record:
  assumes "voice_record (JObj m)"
  shows "row_cells (JObj m) =
     Inr [field_text (dict_get m ''voice_id'' (JStr [])),
          field_text (dict_get m ''name'' (JStr [])),
          field_text (dict_get m ''category'' (JStr [])),
          field_text (dict_get (labels_of m) ''gender'' (JStr [])),
          field_text (dict_get (labels_of m) ''age'' (JStr [])),
          field_text (dict_get (labels_of m) ''accent'' (JStr [])),
          field_text (dict_get m ''description'' (JStr []))]"
  by (simp add: row_cells_def voice_row_record [OF assms] dict_to_list_row)

lemma voice_row_raises:
  "\<not> voice_record v \<Longrightarrow> voice_row v = Inl AttributeError"
proof (cases v)
  case (JObj m)
  assume nv: "\<not> voice_record v"
  then obtain l where l: "map_of m ''labels'' = Some l" "truthy l" "\<forall>x. l \<noteq> JObj x"
    using JObj by (auto split: option.splits json.splits)
  then have "py_or (dict_get m ''labels'' (JObj [])) (JObj []) = l"
    by (simp add: py_or_def dict_get_def)
  moreover have "py_get l ''gender'' (JStr []) = Inl AttributeError"
    using l(3) by (cases l) auto
  ultimately show ?thesis
    using JObj by (simp add: voice_row_def)
qed (simp_all add: voice_row_def)

lemma writer_render: "writer_writerow fs = render_row (map field_text fs)"
  by (simp add: writer_writerow_def render_row_def)

lemma writerow_cells:
  "and_then (voice_row v) DictWriter_writerow = and_then (row_cells v) (\<lambda>c. Inr (render_row c))"
proof (cases "voice_row v")
  case (Inl e)
  then show ?thesis by (simp add: row_cells_def)
next
  case (Inr row)
  then show ?thesis
    by (cases "dict_to_list row") (simp_all add: row_cells_def DictWriter_writerow_def writer_render)
qed

lemma row_cells_length: "row_cells v = Inr c \<Longrightarrow> length c = 7"
  by (cases "voice_row v"; cases "dict_to_list (projr (voice_row v))")
     (auto simp: row_cells_def dict_to_list_def fieldnames_def split: if_splits)

lemma writeheader_render: "writeheader = Inr (render_row fieldnames)"
  by (simp add: writeheader_def DictWriter_writerow_def dict_to_list_def fieldnames_def
      writer_render dict_get_def)

lemma write_voices_rows:
  "write_voices vs f = (f', e) \<Longrightarrow>
   \<exists>rows. f' = f @ concat (map render_row rows) \<and> length rows \<le> length vs \<and>
          map Inr rows = map row_cells (take (length rows) vs) \<and>
          (e = None \<longrightarrow> length rows = length vs)"
proof (induction vs arbitrary: f)
  case Nil
  then show ?case by simp
next
  case (Cons v vs)
  show ?case
  proof (cases "row_cells v")
    case (Inl err)
    with Cons.prems have "f' = f" "e = Some err" by (simp_all add: writerow_cells)
    then show ?thesis by (intro exI [of _ "[]"]) simp
  next
    case (Inr c)
    with Cons.prems have "write_voices vs (f @ render_row c) = (f', e)"
      by (simp add: writerow_cells)
    from Cons.IH [OF this] obtain rows where
      rows: "f' = (f @ render_row c) @ concat (map render_row rows)" "length rows \<le> length vs"
        "map Inr rows = map row_cells (take (length rows) vs)" "e = None \<longrightarrow> length rows = length vs"
      by blast
    show ?thesis
      using rows Inr by (intro exI [of _ "c # rows"]) simp
  qed
qed

lemma write_voices_records:
  "list_all voice_record vs \<Longrightarrow>
   \<exists>rows. write_voices vs f = (f @ concat (map render_row rows), None) \<and>
          map Inr rows = map row_cells vs"
proof (induction vs arbitrary: f)
  case Nil
  then show ?case by simp
next
  case (Cons v vs)
  then obtain m where v: "v = JObj m" by (cases v) auto
  with Cons.prems obtain c where c: "row_cells v = Inr c"
    using row_cells_record [of m] by auto
  from Cons.prems have "list_all voice_record vs" by simp
  from Cons.IH [OF this, of "f @ render_row c"] obtain rows where
    rows: "write_voices vs (f @ render_row c) = ((f @ render_row c) @ concat (map render_row rows), None)"
      "map Inr rows = map row_cells vs"
    by blast
  show ?case
    using rows c by (intro exI [of _ "c # rows"]) (simp add: writerow_cells)
qed

lemma render_header: "render_row fieldnames = header_text"
  by (simp add: render_row_def fieldnames_def header_text_def join_def quote_field_def)

lemma rows_nonempty:
  assumes "map Inr rows = map row_cells vs"
  shows "list_all (\<lambda>r. length r = 7) rows"
proof -
  have "length r = 7" if "r \<in> set rows" for r
  proof -
    from that obtain i where i: "i < length rows" "rows ! i = r"
      by (auto simp: in_set_conv_nth)
    from assms have len: "length rows = length vs"
      by (metis length_map)
    from assms i len have "row_cells (vs ! i) = Inr r"
      by (metis nth_map)
    then show ?thesis by (rule row_cells_length)
  qed
  then show ?thesis by (simp add: list_all_iff)
qed

lemma read_csv_file:
  assumes "list_all (\<lambda>r. length r = 7) rows"
  shows "read_csv (header_text @ concat (map render_row rows)) = Some (fieldnames # rows)"
proof -
  have "\<forall>r \<in> set (fieldnames # rows). r \<noteq> []"
    using assms by (auto simp: list_all_iff fieldnames_def)
  from read_csv_render [OF this] show ?thesis
    by (simp add: render_header)
qed

lemma export_to_csv_content:
  "\<exists>rows. files (snd (export_to_csv (JObj m) filename w)) filename =
            Some (header_text @ concat (map render_row rows)) \<and>
          list_all (\<lambda>r. length r = 7) rows"
proof (cases "py_iter (dict_get m ''voices'' (JArr []))")
  case (Inl e)
  then have "files (snd (export_to_csv (JObj m) filename w)) filename = Some (header_text @ concat (map render_row []))"
    by (simp add: export_to_csv_def writeheader_render render_header write_file_def)
  then show ?thesis by (intro exI [of _ "[]"]) simp
next
  case (Inr vs)
  obtain f e where fe: "write_voices vs header_text = (f, e)"
    by (cases "write_voices vs header_text")
  from write_voices_rows [OF fe] obtain rows where
    rows: "f = header_text @ concat (map render_row rows)"
      "map Inr rows = map row_cells (take (length rows) vs)"
    by blast
  have "files (snd (export_to_csv (JObj m) filename w)) filename = Some f"
    using Inr fe
    by (cases e) (simp_all add: export_to_csv_def writeheader_render render_header write_file_def print_def)
  with rows(1) rows_nonempty [OF rows(2)] show ?thesis by blast
qed

lemma map_of_drop_key:
  "map_of (filter (\<lambda>kv. fst kv \<noteq> k) m) k' = (if k' = k then None else map_of m k')"
  by (induction m) auto

lemma export_to_csv_raises:
  assumes "map_of m ''voices'' = Some (JArr vs)" and "\<not> list_all voice_record vs"
  shows "fst (export_to_csv (JObj m) filename w) = Raised AttributeError"
proof -
  have "\<exists>f. write_voices vs g = (f, Some AttributeError)" for g
    using assms(2)
  proof (induction vs arbitrary: g)
    case Nil
    then show ?case by simp
  next
    case (Cons v vs)
    show ?case
    proof (cases "voice_record v")
      case False
      then show ?thesis by (simp add: voice_row_raises)
    next
      case True
      then obtain m' where v: "v = JObj m'" by (cases v) auto
      with True obtain c where c: "row_cells v = Inr c"
        using row_cells_record [of m'] by auto
      from Cons.prems True have "\<not> list_all voice_record vs" by simp
      from Cons.IH [OF this] c show ?thesis
        by (simp add: writerow_cells)
    qed
  qed
  then obtain f where "write_voices vs header_text = (f, Some AttributeError)" by blast
  with assms(1) show ?thesis
    by (simp add: export_to_csv_def dict_get_def writeheader_render render_header)
qed

subsection \<open>The claims about the CSV export\<close>

text \<open>
  C1. For a parsed response whose \<^verbatim>\<open>voices\<close> key maps to a sequence of \<open>N\<close> voice records,
  \<^verbatim>\<open>export_to_csv\<close> returns, prints the number \<open>N\<close>, and leaves in the file a text whose
  rows are the header row followed by \<open>N\<close> data rows: the \<open>i\<close>-th data row holds the cells of
  the \<open>i\<close>-th record of the sequence.
\<close>

theorem export_to_csv_rows:
  assumes "map_of m ''voices'' = Some (JArr vs)" and "list_all voice_record vs"
  shows "\<exists>content rows.
     export_to_csv (JObj m) filename w =
       (Done, print (''Wrote CSV with '' @ show_nat (length vs) @ '' voices to '' @ filename)
                (write_file filename content w)) \<and>
     read_csv content = Some (fieldnames # rows) \<and>
     length rows = length vs \<and>
     map Inr rows = map row_cells vs"
proof -
  from write_voices_records [OF assms(2), of header_text] obtain rows where
    rows: "write_voices vs header_text = (header_text @ concat (map render_row rows), None)"
      "map Inr rows = map row_cells vs"
    by blast
  have len: "length rows = length vs"
    using rows(2) by (metis length_map)
  have "export_to_csv (JObj m) filename w =
       (Done, print (''Wrote CSV with '' @ show_nat (length vs) @ '' voices to '' @ filename)
                (write_file filename (header_text @ concat (map render_row rows)) w))"
    using assms(1) rows(1)
    by (simp add: export_to_csv_def dict_get_def writeheader_render render_header)
  moreover have "read_csv (header_text @ concat (map render_row rows)) = Some (fieldnames # rows)"
    using rows(2) by (intro read_csv_file rows_nonempty)
  ultimately show ?thesis
    using len rows(2) by blast
qed

theorem export_to_csv_rows_witness:
  "map_of [(''voices'', JArr [JObj [(''voice_id'', JStr ''v1'')], JObj [(''name'', JStr ''Ann'')]])] ''voices'' =
     Some (JArr [JObj [(''voice_id'', JStr ''v1'')], JObj [(''name'', JStr ''Ann'')]]) \<and>
   list_all voice_record [JObj [(''voice_id'', JStr ''v1'')], JObj [(''name'', JStr ''Ann'')]] \<and>
   (\<exists>content rows.
     export_to_csv (JObj [(''voices'', JArr [JObj [(''voice_id'', JStr ''v1'')], JObj [(''name'', JStr ''Ann'')]])])
       ''voices.csv'' world0 =
       (Done, print (''Wrote CSV with '' @
                     show_nat (length [JObj [(''voice_id'', JStr ''v1'')], JObj [(''name'', JStr ''Ann'')]]) @
                     '' voices to '' @ ''voices.csv'')
                (write_file ''voices.csv'' content world0)) \<and>
     read_csv content = Some (fieldnames # rows) \<and>
     length rows = length [JObj [(''voice_id'', JStr ''v1'')], JObj [(''name'', JStr ''Ann'')]] \<and>
     map Inr rows = map row_cells [JObj [(''voice_id'', JStr ''v1'')], JObj [(''name'', JStr ''Ann'')]])"
  using export_to_csv_rows
    [of "[(''voices'', JArr [JObj [(''voice_id'', JStr ''v1'')], JObj [(''name'', JStr ''Ann'')]])]"
        "[JObj [(''voice_id'', JStr ''v1'')], JObj [(''name'', JStr ''Ann'')]]" "''voices.csv''" world0]
  by simp

text \<open>
  C2. For a voice record, a field that is missing gives the empty text in its column:
  \<^verbatim>\<open>voice_id\<close>, \<^verbatim>\<open>name\<close>, \<^verbatim>\<open>category\<close> and \<^verbatim>\<open>description\<close> when the record lacks the key,
  \<^verbatim>\<open>gender\<close>, \<^verbatim>\<open>age\<close> and \<^verbatim>\<open>accent\<close> when the record has no \<^verbatim>\<open>labels\<close> or its \<^verbatim>\<open>labels\<close> lack
  the key. The row is computed and written without an exception; the cell is the empty
  text, so neither \<^verbatim>\<open>null\<close> nor \<^verbatim>\<open>None\<close>.
\<close>

theorem missing_fields_empty:
  assumes "voice_record (JObj m)"
  shows "\<exists>c. row_cells (JObj m) = Inr c \<and> length c = 7 \<and>
     and_then (voice_row (JObj m)) DictWriter_writerow = Inr (render_row c) \<and>
     (map_of m ''voice_id'' = None \<longrightarrow> c ! 0 = []) \<and>
     (map_of m ''name'' = None \<longrightarrow> c ! 1 = []) \<and>
     (map_of m ''category'' = None \<longrightarrow> c ! 2 = []) \<and>
     (map_of m ''labels'' = None \<or> (\<exists>l. map_of m ''labels'' = Some (JObj l) \<and> map_of l ''gender'' = None)
        \<longrightarrow> c ! 3 = []) \<and>
     (map_of m ''labels'' = None \<or> (\<exists>l. map_of m ''labels'' = Some (JObj l) \<and> map_of l ''age'' = None)
        \<longrightarrow> c ! 4 = []) \<and>
     (map_of m ''labels'' = None \<or> (\<exists>l. map_of m ''labels'' = Some (JObj l) \<and> map_of l ''accent'' = None)
        \<longrightarrow> c ! 5 = []) \<and>
     (map_of m ''description'' = None \<longrightarrow> c ! 6 = [])"
proof -
  let ?c = "[field_text (dict_get m ''voice_id'' (JStr [])),
          field_text (dict_get m ''name'' (JStr [])),
          field_text (dict_get m ''category'' (JStr [])),
          field_text (dict_get (labels_of m) ''gender'' (JStr [])),
          field_text (dict_get (labels_of m) ''age'' (JStr [])),
          field_text (dict_get (labels_of m) ''accent'' (JStr [])),
          field_text (dict_get m ''description'' (JStr []))]"
  have c: "row_cells (JObj m) = Inr ?c"
    by (rule row_cells_record [OF assms])
  have line: "and_then (voice_row (JObj m)) DictWriter_writerow = Inr (render_row ?c)"
    by (simp add: writerow_cells c)
  have direct: "map_of m k = None \<Longrightarrow> field_text (dict_get m k (JStr [])) = []" for k
    by (simp add: dict_get_def)
  have nested: "map_of m ''labels'' = None \<or> (\<exists>l. map_of m ''labels'' = Some (JObj l) \<and> map_of l k = None)
     \<Longrightarrow> field_text (dict_get (labels_of m) k (JStr [])) = []" for k
    by (auto simp: dict_get_def labels_of_def)
  show ?thesis
    using c line direct nested by (intro exI [of _ ?c]) simp
qed

theorem missing_fields_empty_witness:
  "voice_record (JObj [(''name'', JStr ''Ann''), (''labels'', JObj [(''age'', JStr ''young'')])]) \<and>
   (\<exists>c. row_cells (JObj [(''name'', JStr ''Ann''), (''labels'', JObj [(''age'', JStr ''young'')])]) = Inr c \<and>
        length c = 7 \<and> c ! 0 = [] \<and> c ! 2 = [] \<and> c ! 3 = [] \<and> c ! 5 = [] \<and> c ! 6 = [])"
  using missing_fields_empty [of "[(''name'', JStr ''Ann''), (''labels'', JObj [(''age'', JStr ''young'')])]"]
  by auto

text \<open>
  C3. Whatever the input: when it is a mapping, the text left in the file starts with the
  header row of the seven names in their order, and the reader that accepts quoted fields
  only reads the whole text, the header and every data row, each of seven fields (also
  when the loop ends early with an exception). When the input is no mapping,
  \<^verbatim>\<open>data.get\<close> raises before the file is opened and nothing is written.
\<close>

theorem header_row_and_quoting:
  "(case data of
      JObj m \<Rightarrow>
        (\<exists>rest rows.
            files (snd (export_to_csv data filename w)) filename = Some (header_text @ rest) \<and>
            read_csv (header_text @ rest) = Some (fieldnames # rows) \<and>
            list_all (\<lambda>r. length r = 7) rows)
    | _ \<Rightarrow> export_to_csv data filename w = (Raised AttributeError, w))"
proof (cases data)
  case (JObj m)
  from export_to_csv_content [of m filename w] obtain rows where
    rows: "files (snd (export_to_csv (JObj m) filename w)) filename =
            Some (header_text @ concat (map render_row rows))"
      "list_all (\<lambda>r. length r = 7) rows"
    by blast
  from read_csv_file [OF rows(2)] rows show ?thesis
    unfolding JObj by (simp only: json.case) blast
qed (simp_all add: export_to_csv_def)

theorem header_row_and_quoting_witness:
  "\<exists>rest rows.
      files (snd (export_to_csv (JObj [(''voices'', JArr [JObj [(''name'', JStr ''Ann'')], JInt 3])]) ''voices.csv'' world0))
        ''voices.csv'' = Some (header_text @ rest) \<and>
      read_csv (header_text @ rest) = Some (fieldnames # rows) \<and>
      list_all (\<lambda>r. length r = 7) rows"
  using header_row_and_quoting [of "JObj [(''voices'', JArr [JObj [(''name'', JStr ''Ann'')], JInt 3])]" "''voices.csv''" world0]
  by (simp only: json.case)

text \<open>
  C9. A voice record whose \<^verbatim>\<open>labels\<close> key maps to \<^verbatim>\<open>None\<close> gives the row of the same record
  without the key: no exception, and the columns \<^verbatim>\<open>gender\<close>, \<^verbatim>\<open>age\<close> and \<^verbatim>\<open>accent\<close> are
  empty.
\<close>

theorem null_labels_as_absent:
  assumes "map_of m ''labels'' = Some JNull"
  shows "voice_row (JObj m) = voice_row (JObj (filter (\<lambda>kv. fst kv \<noteq> ''labels'') m)) \<and>
     (\<exists>c. row_cells (JObj m) = Inr c \<and> c ! 3 = [] \<and> c ! 4 = [] \<and> c ! 5 = [])"
proof -
  let ?m' = "filter (\<lambda>kv. fst kv \<noteq> ''labels'') m"
  have rec: "voice_record (JObj m)" "voice_record (JObj ?m')"
    using assms by (simp_all add: map_of_drop_key)
  have lab: "labels_of m = []" "labels_of ?m' = []"
    using assms by (simp_all add: labels_of_def map_of_drop_key)
  have get: "dict_get ?m' k d = dict_get m k d" if "k \<noteq> ''labels''" for k d
    using that by (simp add: dict_get_def map_of_drop_key)
  have "voice_row (JObj m) = voice_row (JObj ?m')"
    by (simp add: voice_row_record [OF rec(1)] voice_row_record [OF rec(2)] lab get)
  moreover have "\<exists>c. row_cells (JObj m) = Inr c \<and> c ! 3 = [] \<and> c ! 4 = [] \<and> c ! 5 = []"
    by (simp add: row_cells_record [OF rec(1)] lab dict_get_def)
  ultimately show ?thesis by blast
qed

theorem null_labels_as_absent_witness:
  "map_of [(''name'', JStr ''Ann''), (''labels'', JNull)] ''labels'' = Some JNull \<and>
   voice_row (JObj [(''name'', JStr ''Ann''), (''labels'', JNull)]) =
     voice_row (JObj (filter (\<lambda>kv. fst kv \<noteq> ''labels'') [(''name'', JStr ''Ann''), (''labels'', JNull)])) \<and>
   (\<exists>c. row_cells (JObj [(''name'', JStr ''Ann''), (''labels'', JNull)]) = Inr c \<and>
        c ! 3 = [] \<and> c ! 4 = [] \<and> c ! 5 = [])"
  using null_labels_as_absent [of "[(''name'', JStr ''Ann''), (''labels'', JNull)]"]
  by simp

section \<open>Properties of the program\<close>

subsection \<open>The fetch and the paths of \<^verbatim>\<open>main\<close>\<close>

lemma request_eq: "add_header ''xi-api-key'' key (Request API_URL) = voices_request key"
  by (simp add: add_header_def Request_def voices_request_def)

lemma fetch_voices_ok:
  assumes "urlopen (voices_request key) = Response code reason (Some b)"
    and "200 \<le> code" and "code < 300" and "loads b = Some data"
  shows "fetch_voices loads urlopen key w = (Inr data, sent key w)"
  using assms by (simp add: fetch_voices_def request_eq sent_def Let_def)

lemma fetch_voices_http_error:
  assumes "urlopen (voices_request key) = Response code reason body" and "400 \<le> code"
  shows "fetch_voices loads urlopen key w =
     (Inl (SysExit 1),
      (case body of
         None \<Rightarrow> print (''HTTP error: '' @ show_nat code @ '' '' @ reason) (sent key w)
       | Some text \<Rightarrow> print (''Response body: '' @ text)
                       (print (''HTTP error: '' @ show_nat code @ '' '' @ reason) (sent key w))))"
  using assms by (cases body) (simp_all add: fetch_voices_def request_eq sent_def Let_def)

lemma fetch_voices_requests:
  "requests (snd (fetch_voices loads urlopen key w)) = requests w @ [voices_request key]"
  by (cases "urlopen (voices_request key)")
     (auto simp: fetch_voices_def request_eq Let_def print_def split: option.splits)

lemma fetch_voices_files:
  "files (snd (fetch_voices loads urlopen key w)) = files w"
  by (cases "urlopen (voices_request key)")
     (auto simp: fetch_voices_def request_eq Let_def print_def split: option.splits)

lemma main_fetched:
  assumes "fetched loads urlopen argv data"
  shows "main loads urlopen argv w =
     (case py_in ''voices'' data of
        Inl e \<Rightarrow> (Raised e, sent (strip (argv ! 1)) (print fetching w))
      | Inr False \<Rightarrow>
          (SysExit 1, print (dumps True data) (print warning (sent (strip (argv ! 1)) (print fetching w))))
      | Inr True \<Rightarrow>
          export_to_csv data ''voices.csv''
            (print (''Wrote raw JSON to voices.json'')
               (write_file ''voices.json'' (dumps False data) (sent (strip (argv ! 1)) (print fetching w)))))"
proof -
  from assms obtain code reason b where
    a: "2 \<le> length argv" "strip (argv ! 1) \<noteq> []"
      "urlopen (voices_request (strip (argv ! 1))) = Response code reason (Some b)"
      "200 \<le> code" "code < 300" "loads b = Some data"
    by (auto simp: fetched_def)
  have f: "fetch_voices loads urlopen (strip (argv ! 1)) (print fetching w) =
      (Inr data, sent (strip (argv ! 1)) (print fetching w))"
    using a(3-6) by (rule fetch_voices_ok)
  from a(1) have n: "\<not> length argv < 2" by simp
  show ?thesis
    unfolding main_def Let_def
    by (simp only: n a(2) if_False f [unfolded fetching_def] prod.case sum.case)
       (simp add: export_to_json_def fetching_def warning_def split: sum.splits bool.splits)
qed

lemma strip_unchanged:
  assumes "s \<noteq> []" and "\<not> isspace (hd s)" and "\<not> isspace (last s)"
  shows "strip s = s"
proof -
  from assms(1,2) have a: "dropWhile isspace s = s"
    by (cases s) auto
  from assms(1,3) have "dropWhile isspace (rev s) = rev s"
    by (cases "rev s") (auto simp: last_rev [symmetric] simp del: last_rev)
  with a show ?thesis by (simp add: strip_def)
qed

lemma main_not_fetching:
  assumes "length argv < 2 \<or> strip (argv ! 1) = []"
  shows "main loads urlopen argv w =
     (SysExit 1, print (if length argv < 2 then usage else ''Error: empty API key.'') w)"
  using assms by (auto simp: main_def usage_def)

lemma main_requests:
  "requests (snd (main loads urlopen argv w)) =
     (if 2 \<le> length argv \<and> strip (argv ! 1) \<noteq> [] then requests w @ [voices_request (strip (argv ! 1))]
      else requests w)"
proof (cases "2 \<le> length argv \<and> strip (argv ! 1) \<noteq> []")
  case False
  then have "length argv < 2 \<or> strip (argv ! 1) = []" by auto
  from main_not_fetching [OF this] False show ?thesis by (simp add: print_def)
next
  case True
  let ?f = "fetch_voices loads urlopen (strip (argv ! 1)) (print fetching w)"
  have r: "requests (snd ?f) = requests w @ [voices_request (strip (argv ! 1))]"
    by (simp add: fetch_voices_requests print_def)
  obtain res w2 where f: "?f = (res, w2)" by (cases ?f)
  with r have r2: "requests w2 = requests w @ [voices_request (strip (argv ! 1))]" by simp
  have "requests (snd (main loads urlopen argv w)) = requests w2"
  proof (cases res)
    case (Inl st)
    with True f show ?thesis by (simp add: main_def fetching_def)
  next
    case (Inr data)
    have csv: "requests (snd (export_to_csv d fn v)) = requests v" for d fn v
      by (auto simp: export_to_csv_def write_file_def print_def split: sum.splits option.splits prod.splits)
    from True f Inr show ?thesis
      by (auto simp: main_def fetching_def export_to_json_def csv write_file_def print_def
          split: sum.splits bool.splits)
  qed
  with r2 True show ?thesis by simp
qed

lemma export_to_csv_null:
  assumes "map_of m ''voices'' = Some JNull"
  shows "export_to_csv (JObj m) filename w = (Raised TypeError, write_file filename header_text w)"
  using assms by (simp add: export_to_csv_def dict_get_def writeheader_render render_header)

lemma main_no_voices:
  assumes "fetched loads urlopen argv data" and "py_in ''voices'' data = Inr False"
  shows "main loads urlopen argv w =
     (SysExit 1, print (dumps True data) (print warning (sent (strip (argv ! 1)) (print fetching w))))"
  using assms(2) by (simp add: main_fetched [OF assms(1)])

lemma main_not_container:
  assumes "fetched loads urlopen argv data"
    and "data = JNull \<or> (\<exists>b. data = JBool b) \<or> (\<exists>i. data = JInt i) \<or> (\<exists>s. data = JFloat s)"
  shows "main loads urlopen argv w = (Raised TypeError, sent (strip (argv ! 1)) (print fetching w))"
  using assms(2) by (auto simp: main_fetched [OF assms(1)])

subsection \<open>The claims about the program\<close>

text \<open>
  C4, as stated, fails: the check of line 83 is \<^verbatim>\<open>"voices" not in data\<close>, which looks for a
  key only when the structure is a mapping. The list \<^verbatim>\<open>["voices"]\<close> has no key \<^verbatim>\<open>voices\<close> and
  yet passes the check: no warning is printed, \<^verbatim>\<open>voices.json\<close> is written, and the CSV export
  raises.
\<close>

theorem voices_element_passes_check:
  \<open>json_loads ''["voices"]'' = Some (JArr [JStr ''voices'']) \<and>
   fst (main json_loads (\<lambda>r. Response 200 ''OK'' (Some ''["voices"]''))
      [''export_elevenlabs_voices.py'', ''key''] world0) = Raised AttributeError \<and>
   stdout (snd (main json_loads (\<lambda>r. Response 200 ''OK'' (Some ''["voices"]''))
      [''export_elevenlabs_voices.py'', ''key''] world0)) = [fetching, ''Wrote raw JSON to voices.json''] \<and>
   files (snd (main json_loads (\<lambda>r. Response 200 ''OK'' (Some ''["voices"]''))
      [''export_elevenlabs_voices.py'', ''key''] world0)) ''voices.json'' =
     Some (dumps False (JArr [JStr ''voices'']))\<close>
proof -
  have s: "strip ''key'' = ''key''"
    by (simp add: strip_def isspace_def)
  have l: \<open>json_loads ''["voices"]'' = Some (JArr [JStr ''voices''])\<close>
    by code_simp
  have h: \<open>fetched json_loads (\<lambda>r. Response 200 ''OK'' (Some ''["voices"]''))
      [''export_elevenlabs_voices.py'', ''key''] (JArr [JStr ''voices''])\<close>
    by (simp add: fetched_def s l)
  show ?thesis
    by (simp add: l main_fetched [OF h] export_to_csv_def write_file_def print_def sent_def world0_def)
qed

text \<open>
  C4, amended. When the fetch returns a mapping without the key \<^verbatim>\<open>voices\<close>, the program
  prints the warning and then the whole structure as \<^verbatim>\<open>json.dumps(data, indent=2)\<close> gives it,
  and ends with exit code 1; the files are what they were, so neither \<^verbatim>\<open>voices.json\<close> nor
  \<^verbatim>\<open>voices.csv\<close> is created or overwritten.
\<close>

theorem missing_voices_key_exit:
  assumes "fetched loads urlopen argv (JObj m)" and "''voices'' \<notin> fst ` set m"
  shows "fst (main loads urlopen argv w) = SysExit 1 \<and>
         exit_code (fst (main loads urlopen argv w)) = 1 \<and>
         stdout (snd (main loads urlopen argv w)) = stdout w @ [fetching, warning, dumps True (JObj m)] \<and>
         files (snd (main loads urlopen argv w)) = files w"
  using assms(2) by (simp add: main_fetched [OF assms(1)] print_def sent_def)

theorem missing_voices_key_exit_witness:
  \<open>fetched json_loads (\<lambda>r. Response 200 ''OK'' (Some ''{"not_voices": []}''))
      [''export_elevenlabs_voices.py'', ''key''] (JObj [(''not_voices'', JArr [])]) \<and>
   ''voices'' \<notin> fst ` set [(''not_voices'', JArr [])] \<and>
   fst (main json_loads (\<lambda>r. Response 200 ''OK'' (Some ''{"not_voices": []}''))
      [''export_elevenlabs_voices.py'', ''key''] world0) = SysExit 1 \<and>
   stdout (snd (main json_loads (\<lambda>r. Response 200 ''OK'' (Some ''{"not_voices": []}''))
      [''export_elevenlabs_voices.py'', ''key''] world0)) =
     [fetching, warning, ''{'' @ [CHR 0x0A] @ ''  "not_voices": []'' @ [CHR 0x0A] @ ''}''] \<and>
   files (snd (main json_loads (\<lambda>r. Response 200 ''OK'' (Some ''{"not_voices": []}''))
      [''export_elevenlabs_voices.py'', ''key''] world0)) = Map.empty\<close>
proof -
  have s: "strip ''key'' = ''key''"
    by (simp add: strip_def isspace_def)
  have l: \<open>json_loads ''{"not_voices": []}'' = Some (JObj [(''not_voices'', JArr [])])\<close>
    by code_simp
  have h: \<open>fetched json_loads (\<lambda>r. Response 200 ''OK'' (Some ''{"not_voices": []}''))
      [''export_elevenlabs_voices.py'', ''key''] (JObj [(''not_voices'', JArr [])])\<close>
    by (simp add: fetched_def s l)
  have k: "''voices'' \<notin> fst ` set [(''not_voices'', JArr [])]"
    by simp
  have d: \<open>dumps True (JObj [(''not_voices'', JArr [])]) =
      ''{'' @ [CHR 0x0A] @ ''  "not_voices": []'' @ [CHR 0x0A] @ ''}''\<close>
    by (simp add: dumps_def newline_indent_def encode_basestring_def escape_char_def)
  show ?thesis
    using missing_voices_key_exit [OF h k, of world0] h
    by (simp add: d world0_def)
qed

text \<open>
  C5. When the network answers with a status of 400 or more, the program prints the status
  code and the reason phrase, then the body if reading it gave a text (a failed read is
  passed over in silence), and ends with exit code 1; the files are what they were.
\<close>

theorem http_error_reported:
  assumes "2 \<le> length argv" and "strip (argv ! 1) \<noteq> []"
    and "urlopen (voices_request (strip (argv ! 1))) = Response code reason body"
    and "400 \<le> code"
  shows "fst (main loads urlopen argv w) = SysExit 1 \<and>
         exit_code (fst (main loads urlopen argv w)) = 1 \<and>
         stdout (snd (main loads urlopen argv w)) =
           stdout w @ [fetching, ''HTTP error: '' @ show_nat code @ '' '' @ reason] @
           (case body of None \<Rightarrow> [] | Some b \<Rightarrow> [''Response body: '' @ b]) \<and>
         files (snd (main loads urlopen argv w)) = files w"
proof -
  from assms(1) have n: "\<not> length argv < 2" by simp
  have "main loads urlopen argv w =
     (SysExit 1,
      (case body of
         None \<Rightarrow> print (''HTTP error: '' @ show_nat code @ '' '' @ reason)
                   (sent (strip (argv ! 1)) (print fetching w))
       | Some b \<Rightarrow> print (''Response body: '' @ b)
                       (print (''HTTP error: '' @ show_nat code @ '' '' @ reason)
                          (sent (strip (argv ! 1)) (print fetching w)))))"
    unfolding main_def Let_def
    by (simp only: n assms(2) if_False
        fetch_voices_http_error [where urlopen = urlopen and key = "strip (argv ! 1)", OF assms(3,4), unfolded fetching_def] fetching_def prod.case sum.case)
  then show ?thesis
    by (cases body) (simp_all add: print_def sent_def)
qed

theorem http_error_reported_witness:
  "fst (main (\<lambda>s. None) (\<lambda>r. Response 401 ''Unauthorized'' (Some ''{detail:invalid key}''))
          [''export_elevenlabs_voices.py'', ''wrong''] world0) = SysExit 1 \<and>
   stdout (snd (main (\<lambda>s. None) (\<lambda>r. Response 401 ''Unauthorized'' (Some ''{detail:invalid key}''))
          [''export_elevenlabs_voices.py'', ''wrong''] world0)) =
     [fetching, ''HTTP error: 401 Unauthorized'', ''Response body: {detail:invalid key}''] \<and>
   files (snd (main (\<lambda>s. None) (\<lambda>r. Response 401 ''Unauthorized'' (Some ''{detail:invalid key}''))
          [''export_elevenlabs_voices.py'', ''wrong''] world0)) = Map.empty"
  using http_error_reported [of "[''export_elevenlabs_voices.py'', ''wrong'']"
      "\<lambda>r. Response 401 ''Unauthorized'' (Some ''{detail:invalid key}'')" 401 "''Unauthorized''"
      "Some ''{detail:invalid key}''" "\<lambda>s. None" world0]
  by (simp add: strip_def isspace_def world0_def show_nat.simps digit_char_def)

text \<open>
  C6. With no argument, or with an argument that is empty once its surrounding white space
  is trimmed, the program prints the usage line or the error line and ends with exit code
  1; no request is sent and no file is written.
\<close>

theorem no_credential_no_network:
  assumes "length argv < 2 \<or> strip (argv ! 1) = []"
  shows "main loads urlopen argv w =
           (SysExit 1, print (if length argv < 2 then usage else ''Error: empty API key.'') w) \<and>
         exit_code (fst (main loads urlopen argv w)) = 1 \<and>
         requests (snd (main loads urlopen argv w)) = requests w \<and>
         files (snd (main loads urlopen argv w)) = files w"
  using main_not_fetching [OF assms, of loads urlopen w] by (simp add: print_def)

theorem no_credential_no_network_witness:
  "main (\<lambda>s. None) (\<lambda>r. OtherFailure) [''export_elevenlabs_voices.py''] world0 =
     (SysExit 1, print usage world0) \<and>
   requests (snd (main (\<lambda>s. None) (\<lambda>r. OtherFailure) [''export_elevenlabs_voices.py''] world0)) = [] \<and>
   strip [CHR '' '', CHR 0x09, CHR '' ''] = [] \<and>
   main (\<lambda>s. None) (\<lambda>r. OtherFailure) [''export_elevenlabs_voices.py'', [CHR '' '', CHR 0x09, CHR '' '']] world0 =
     (SysExit 1, print ''Error: empty API key.'' world0) \<and>
   requests (snd (main (\<lambda>s. None) (\<lambda>r. OtherFailure) [''export_elevenlabs_voices.py'', [CHR '' '', CHR 0x09, CHR '' '']] world0)) = []"
proof -
  have s: "strip [CHR '' '', CHR 0x09, CHR '' ''] = []"
    by (simp add: strip_def isspace_def)
  have h1: "length [''export_elevenlabs_voices.py''] < 2 \<or> strip ([''export_elevenlabs_voices.py''] ! 1) = []"
    by simp
  have h2: "length [''export_elevenlabs_voices.py'', [CHR '' '', CHR 0x09, CHR '' '']] < 2 \<or>
      strip ([''export_elevenlabs_voices.py'', [CHR '' '', CHR 0x09, CHR '' '']] ! 1) = []"
    by (simp add: s)
  have r: "requests world0 = []"
    by (simp add: world0_def)
  show ?thesis
    using no_credential_no_network [OF h1, of "\<lambda>s. None" "\<lambda>r. OtherFailure" world0]
      no_credential_no_network [OF h2, of "\<lambda>s. None" "\<lambda>r. OtherFailure" world0]
    by (simp add: s r print_def)
qed

text \<open>
  C8, as stated, fails: the program trims the argument before it forwards it, so a
  credential given with surrounding white space does not arrive unchanged.
\<close>

theorem credential_not_verbatim:
  \<open>requests (snd (main json_loads (\<lambda>r. Response 200 ''OK'' (Some ''{"voices": []}''))
      [''export_elevenlabs_voices.py'', '' secret ''] world0)) =
     [\<lparr>url = API_URL, http_method = ''GET'', headers = [(''xi-api-key'', ''secret'')]\<rparr>] \<and>
   [''export_elevenlabs_voices.py'', '' secret ''] ! 1 \<noteq> ''secret''\<close>
proof -
  have s: "strip '' secret '' = ''secret''"
    by (simp add: strip_def isspace_def)
  show ?thesis
    by (simp add: main_requests s world0_def voices_request_def)
qed

text \<open>
  C8, amended. A run sends a request exactly when it has an argument that is not empty
  once trimmed, and then it sends one request: a GET to the voices endpoint whose
  \<^verbatim>\<open>xi-api-key\<close> header is the argument with its surrounding white space trimmed, and
  otherwise unchanged.
\<close>

theorem credential_forwarded_trimmed:
  "requests (snd (main loads urlopen argv w)) =
     (if 2 \<le> length argv \<and> strip (argv ! 1) \<noteq> []
      then requests w @ [\<lparr>url = API_URL, http_method = ''GET'', headers = [(''xi-api-key'', strip (argv ! 1))]\<rparr>]
      else requests w)"
  using main_requests [of loads urlopen argv w] by (simp add: voices_request_def)

theorem credential_forwarded_trimmed_witness:
  \<open>requests (snd (main json_loads (\<lambda>r. Response 200 ''OK'' (Some ''{"voices": []}''))
      [''export_elevenlabs_voices.py'', '' secret ''] world0)) =
     [\<lparr>url = ''https://api.elevenlabs.io/v1/voices'', http_method = ''GET'',
        headers = [(''xi-api-key'', ''secret'')]\<rparr>] \<and>
   requests (snd (main json_loads (\<lambda>r. Response 200 ''OK'' (Some ''{"voices": []}''))
      [''export_elevenlabs_voices.py''] world0)) = []\<close>
proof -
  have s: "strip '' secret '' = ''secret''"
    by (simp add: strip_def isspace_def)
  show ?thesis
    using credential_forwarded_trimmed [of json_loads "\<lambda>r. Response 200 ''OK'' (Some ''{\"voices\": []}'')"
        "[''export_elevenlabs_voices.py'', '' secret '']" world0]
      credential_forwarded_trimmed [of json_loads "\<lambda>r. Response 200 ''OK'' (Some ''{\"voices\": []}'')"
        "[''export_elevenlabs_voices.py'']" world0]
    by (simp add: s world0_def API_URL_def)
qed

text \<open>
  C10, as stated, fails: the CSV export has written a row, the header row, to
  \<^verbatim>\<open>voices.csv\<close> when it raises.
\<close>

theorem null_voices_header_written:
  \<open>files (snd (main json_loads (\<lambda>r. Response 200 ''OK'' (Some ''{"voices": null}''))
      [''export_elevenlabs_voices.py'', ''key''] world0)) ''voices.csv'' = Some header_text \<and>
   read_csv header_text = Some [fieldnames]\<close>
proof -
  have s: "strip ''key'' = ''key''"
    by (simp add: strip_def isspace_def)
  have l: \<open>json_loads ''{"voices": null}'' = Some (JObj [(''voices'', JNull)])\<close>
    by code_simp
  have h: \<open>fetched json_loads (\<lambda>r. Response 200 ''OK'' (Some ''{"voices": null}''))
      [''export_elevenlabs_voices.py'', ''key''] (JObj [(''voices'', JNull)])\<close>
    by (simp add: fetched_def s l)
  have r: "read_csv header_text = Some [fieldnames]"
    using read_csv_file [of "[]"] by simp
  show ?thesis
    by (simp add: main_fetched [OF h] export_to_csv_null write_file_def r)
qed

text \<open>
  C10, amended. When the fetch returns a mapping whose key \<^verbatim>\<open>voices\<close> maps to \<^verbatim>\<open>None\<close>, the
  check of the key passes, \<^verbatim>\<open>voices.json\<close> is written, and the CSV export opens
  \<^verbatim>\<open>voices.csv\<close>, writes the header row and then raises \<^verbatim>\<open>TypeError\<close> before any data row:
  the run ends with exit code 1, with \<^verbatim>\<open>voices.json\<close> on disk and the header row alone in
  \<^verbatim>\<open>voices.csv\<close>.
\<close>

theorem null_voices_outcome:
  assumes "fetched loads urlopen argv (JObj m)" and "map_of m ''voices'' = Some JNull"
  shows "fst (main loads urlopen argv w) = Raised TypeError \<and>
         exit_code (fst (main loads urlopen argv w)) = 1 \<and>
         stdout (snd (main loads urlopen argv w)) = stdout w @ [fetching, ''Wrote raw JSON to voices.json''] \<and>
         files (snd (main loads urlopen argv w)) =
           (files w)(''voices.json'' \<mapsto> dumps False (JObj m), ''voices.csv'' \<mapsto> header_text) \<and>
         read_csv header_text = Some [fieldnames]"
proof -
  from assms(2) have k: "''voices'' \<in> fst ` set m"
    by (metis domI dom_map_of_conv_image_fst)
  have r: "read_csv header_text = Some [fieldnames]"
    using read_csv_file [of "[]"] by simp
  show ?thesis
    using k by (simp add: main_fetched [OF assms(1)] export_to_csv_null [OF assms(2)]
        write_file_def print_def sent_def r)
qed

theorem null_voices_outcome_witness:
  \<open>fetched json_loads (\<lambda>r. Response 200 ''OK'' (Some ''{"voices": null}''))
      [''export_elevenlabs_voices.py'', ''key''] (JObj [(''voices'', JNull)]) \<and>
   map_of [(''voices'', JNull)] ''voices'' = Some JNull \<and>
   fst (main json_loads (\<lambda>r. Response 200 ''OK'' (Some ''{"voices": null}''))
      [''export_elevenlabs_voices.py'', ''key''] world0) = Raised TypeError \<and>
   files (snd (main json_loads (\<lambda>r. Response 200 ''OK'' (Some ''{"voices": null}''))
      [''export_elevenlabs_voices.py'', ''key''] world0)) =
     [''voices.json'' \<mapsto> dumps False (JObj [(''voices'', JNull)]), ''voices.csv'' \<mapsto> header_text]\<close>
proof -
  have s: "strip ''key'' = ''key''"
    by (simp add: strip_def isspace_def)
  have l: \<open>json_loads ''{"voices": null}'' = Some (JObj [(''voices'', JNull)])\<close>
    by code_simp
  have h: \<open>fetched json_loads (\<lambda>r. Response 200 ''OK'' (Some ''{"voices": null}''))
      [''export_elevenlabs_voices.py'', ''key''] (JObj [(''voices'', JNull)])\<close>
    by (simp add: fetched_def s l)
  have k: "map_of [(''voices'', JNull)] ''voices'' = Some JNull"
    by simp
  show ?thesis
    using null_voices_outcome [OF h k, of world0] h
    by (simp add: world0_def)
qed

section \<open>Properties of the JSON export\<close>

subsection \<open>Decimal digits\<close>

lemma digit_char_props:
  assumes "d < 10"
  shows "is_digit (digit_char d)" and "digit_val (digit_char d) = d"
    and "(digit_char d = CHR ''0'') = (d = 0)"
proof -
  from assms have "d \<in> {0, 1, 2, 3, 4, 5, 6, 7, 8, 9}" by auto
  then show "is_digit (digit_char d)" and "digit_val (digit_char d) = d"
    and "(digit_char d = CHR ''0'') = (d = 0)"
    by (auto simp: digit_char_def is_digit_def digit_val_def)
qed

lemma show_nat_digits: "\<forall>c \<in> set (show_nat n). is_digit c"
proof (induction n rule: show_nat.induct)
  case (1 n)
  show ?case
  proof (cases "n < 10")
    case True
    then show ?thesis by (subst show_nat.simps) (simp add: digit_char_props)
  next
    case False
    with "1.IH" have "\<forall>c \<in> set (show_nat (n div 10)). is_digit c" by simp
    moreover have "is_digit (digit_char (n mod 10))" by (simp add: digit_char_props)
    ultimately show ?thesis using False by (subst show_nat.simps) auto
  qed
qed

lemma show_nat_nonempty: "show_nat n \<noteq> []"
  by (subst show_nat.simps) simp

lemma digits_val_snoc: "digits_val (s @ [c]) = 10 * digits_val s + digit_val c"
  by (simp add: digits_val_def)

lemma digits_val_show_nat: "digits_val (show_nat n) = n"
proof (induction n rule: show_nat.induct)
  case (1 n)
  show ?case
  proof (cases "n < 10")
    case True
    then show ?thesis
      by (subst show_nat.simps) (simp add: digits_val_def digit_char_props)
  next
    case False
    with "1.IH" have "digits_val (show_nat (n div 10)) = n div 10" by simp
    with False show ?thesis
      by (subst show_nat.simps) (simp add: digits_val_snoc digit_char_props)
  qed
qed

lemma show_nat_hd: "hd (show_nat n) = CHR ''0'' \<longleftrightarrow> n = 0"
proof (induction n rule: show_nat.induct)
  case (1 n)
  show ?case
  proof (cases "n < 10")
    case True
    then show ?thesis by (subst show_nat.simps) (simp add: digit_char_props)
  next
    case False
    with "1.IH" have "hd (show_nat (n div 10)) = CHR ''0'' \<longleftrightarrow> n div 10 = 0" by simp
    moreover from False have "n div 10 \<noteq> 0" by simp
    ultimately show ?thesis
      using False show_nat_nonempty [of "n div 10"] by (subst show_nat.simps) simp
  qed
qed

lemma show_nat_zero: "show_nat 0 = ''0''"
  by (subst show_nat.simps) (simp add: digit_char_def)

lemma not_digit_minus: "\<not> is_digit (CHR ''-'')"
  by (simp add: is_digit_def)

lemma takeWhile_all: "\<forall>x \<in> set xs. P x \<Longrightarrow> takeWhile P xs = xs"
  by (induction xs) auto

lemma dropWhile_all: "\<forall>x \<in> set xs. P x \<Longrightarrow> dropWhile P xs = []"
  by (induction xs) auto

lemma scan_int_show_nat: "scan_int (show_nat n) = Some (show_nat n, [])"
proof (cases "n = 0")
  case True
  then show ?thesis by (simp add: show_nat_zero scan_int_def)
next
  case False
  obtain d ds where s: "show_nat n = d # ds"
    using show_nat_nonempty [of n] by (cases "show_nat n") auto
  with show_nat_hd [of n] False have d0: "d \<noteq> CHR ''0''" by simp
  from s show_nat_digits [of n] have dig: "is_digit d" "\<forall>c \<in> set ds. is_digit c" by auto
  then have dm: "d \<noteq> CHR ''-''" using not_digit_minus by auto
  show ?thesis
    using d0 dig dm by (simp add: s scan_int_def takeWhile_all dropWhile_all)
qed

lemma scan_int_show_int: "scan_int (show_int i) = Some (show_int i, [])"
proof (cases "i < 0")
  case False
  then show ?thesis by (simp add: show_int_def scan_int_show_nat)
next
  case True
  let ?n = "nat (- i)"
  from True have n0: "?n \<noteq> 0" by simp
  obtain d ds where s: "show_nat ?n = d # ds"
    using show_nat_nonempty [of ?n] by (cases "show_nat ?n") auto
  with show_nat_hd [of ?n] n0 have d0: "d \<noteq> CHR ''0''" by simp
  from s show_nat_digits [of ?n] have dig: "is_digit d" "\<forall>c \<in> set ds. is_digit c" by auto
  show ?thesis
    using True d0 dig by (simp add: show_int_def s scan_int_def takeWhile_all dropWhile_all)
qed

lemma int_of_text_show_int: "int_of_text (show_int i) = i"
proof (cases "i < 0")
  case True
  then show ?thesis by (simp add: show_int_def int_of_text_def digits_val_show_nat)
next
  case False
  obtain d ds where s: "show_nat (nat i) = d # ds"
    using show_nat_nonempty [of "nat i"] by (cases "show_nat (nat i)") auto
  from s show_nat_digits [of "nat i"] have "is_digit d" by auto
  then have "d \<noteq> CHR ''-''" using not_digit_minus by auto
  moreover have "digits_val (d # ds) = nat i"
    using digits_val_show_nat [of "nat i"] by (simp add: s)
  ultimately show ?thesis
    using False by (simp add: show_int_def int_of_text_def s)
qed

subsection \<open>Numbers\<close>

lemma takeWhile_append_end:
  "rest = [] \<or> \<not> P (hd rest) \<Longrightarrow> takeWhile P (xs @ rest) = takeWhile P xs"
  by (induction xs) (auto simp: takeWhile_eq_Nil_iff)

lemma dropWhile_append_end:
  "rest = [] \<or> \<not> P (hd rest) \<Longrightarrow> dropWhile P (xs @ rest) = dropWhile P xs @ rest"
  by (induction xs) (auto simp: dropWhile_eq_self_iff)

lemma number_end_digits: "number_end rest \<Longrightarrow> rest = [] \<or> \<not> is_digit (hd rest)"
  by (auto simp: number_end_def split: list.splits)

lemma scan_int_append:
  assumes "scan_int s = Some (i, r)" and "number_end rest"
  shows "scan_int (s @ rest) = Some (i, r @ rest)"
proof -
  note e = number_end_digits [OF assms(2)]
  have tw: "takeWhile is_digit (xs @ rest) = takeWhile is_digit xs" for xs
    using e by (rule takeWhile_append_end)
  have dw: "dropWhile is_digit (xs @ rest) = dropWhile is_digit xs @ rest" for xs
    using e by (rule dropWhile_append_end)
  show ?thesis
  proof (cases s)
    case Nil
    with assms(1) show ?thesis by (simp add: scan_int_def)
  next
    case (Cons c cs)
    show ?thesis
    proof (cases "c = CHR ''-''")
      case True
      with assms(1) Cons obtain d r' where cs: "cs = d # r'"
        by (cases cs) (auto simp: scan_int_def)
      with assms(1) Cons True show ?thesis
        by (auto simp: scan_int_def Let_def tw dw split: if_splits)
    next
      case False
      with assms(1) Cons show ?thesis
        by (auto simp: scan_int_def Let_def tw dw split: if_splits)
    qed
  qed
qed

lemma scan_frac_append:
  assumes "number_end rest"
  shows "scan_frac (r @ rest) = (fst (scan_frac r), snd (scan_frac r) @ rest)"
proof -
  note e = number_end_digits [OF assms]
  have tw: "takeWhile is_digit (xs @ rest) = takeWhile is_digit xs" for xs
    using e by (rule takeWhile_append_end)
  have dw: "dropWhile is_digit (xs @ rest) = dropWhile is_digit xs @ rest" for xs
    using e by (rule dropWhile_append_end)
  show ?thesis
  proof (cases r)
    case Nil
    with assms show ?thesis
      by (auto simp: scan_frac_def number_end_def split: list.splits)
  next
    case (Cons p r')
    show ?thesis
    proof (cases r')
      case Nil
      with Cons assms show ?thesis
        by (auto simp: scan_frac_def number_end_def split: list.splits)
    next
      case (Cons d r'')
      with \<open>r = p # r'\<close> show ?thesis
        by (simp add: scan_frac_def tw dw)
    qed
  qed
qed

lemma scan_exp_append:
  assumes "number_end rest"
  shows "scan_exp (r @ rest) = (fst (scan_exp r), snd (scan_exp r) @ rest)"
proof -
  note e = number_end_digits [OF assms]
  have tw: "takeWhile is_digit (xs @ rest) = takeWhile is_digit xs" for xs
    using e by (rule takeWhile_append_end)
  have dw: "dropWhile is_digit (xs @ rest) = dropWhile is_digit xs @ rest" for xs
    using e by (rule dropWhile_append_end)
  have tw0: "takeWhile is_digit rest = []"
    using e by (cases rest) auto
  have sg: "takeWhile (\<lambda>c. c = CHR ''-'' \<or> c = CHR ''+'') (take (Suc 0) rest) = []"
    using assms by (cases rest) (auto simp: number_end_def)
  show ?thesis
  proof (cases r)
    case Nil
    with assms show ?thesis
      by (auto simp: scan_exp_def number_end_def split: list.splits)
  next
    case (Cons x r')
    show ?thesis
    proof (cases "x = CHR ''e'' \<or> x = CHR ''E''")
      case False
      with Cons show ?thesis by (simp add: scan_exp_def)
    next
      case True
      show ?thesis
      proof (cases r')
        case Nil
        with Cons True show ?thesis
          by (simp add: scan_exp_def sg tw0 Let_def)
      next
        case (Cons y r'')
        with \<open>r = x # r'\<close> True show ?thesis
          using tw [of r''] dw [of r''] tw [of "y # r''"] dw [of "y # r''"]
          by (auto simp: scan_exp_def Let_def)
      qed
    qed
  qed
qed

lemma match_number_append:
  assumes "match_number s = Some (i, f, e, r)" and "number_end rest"
  shows "match_number (s @ rest) = Some (i, f, e, r @ rest)"
proof -
  from assms(1) obtain r0 where i: "scan_int s = Some (i, r0)"
    by (auto simp: match_number_def split: option.splits)
  with assms(1) have fe: "f = fst (scan_frac r0)" "e = fst (scan_exp (snd (scan_frac r0)))"
      "r = snd (scan_exp (snd (scan_frac r0)))"
    by (simp_all add: match_number_def)
  show ?thesis
    using scan_int_append [OF i assms(2)] scan_frac_append [OF assms(2), of r0]
      scan_exp_append [OF assms(2), of "snd (scan_frac r0)"] fe
    by (simp add: match_number_def)
qed

lemma scan_int_text: "scan_int s = Some (i, r) \<Longrightarrow> s = i @ r"
  by (cases s; cases "tl s")
     (auto simp: scan_int_def Let_def split: if_splits list.splits)

lemma scan_frac_text: "scan_frac s = (f, r) \<Longrightarrow> s = f @ r"
  by (auto simp: scan_frac_def split: list.splits if_splits)

lemma scan_exp_text: "scan_exp s = (e, r) \<Longrightarrow> s = e @ r"
proof (cases s)
  case Nil
  assume "scan_exp s = (e, r)"
  with Nil show ?thesis by (simp add: scan_exp_def)
next
  case (Cons x r')
  assume a: "scan_exp s = (e, r)"
  show ?thesis
  proof (cases r')
    case Nil
    with a Cons show ?thesis by (auto simp: scan_exp_def Let_def split: if_splits)
  next
    case (Cons y r'')
    with a \<open>s = x # r'\<close> show ?thesis
      by (auto simp: scan_exp_def Let_def split: if_splits)
  qed
qed

lemma match_number_text:
  assumes "match_number s = Some (i, f, e, r)"
  shows "s = i @ f @ e @ r"
proof -
  from assms obtain r0 where i: "scan_int s = Some (i, r0)"
    by (auto simp: match_number_def split: option.splits)
  with assms have fe: "scan_frac r0 = (f, snd (scan_frac r0))"
      "scan_exp (snd (scan_frac r0)) = (e, r)"
    by (simp_all add: match_number_def prod_eq_iff)
  from scan_int_text [OF i] scan_frac_text [OF fe(1)] scan_exp_text [OF fe(2)] show ?thesis
    by metis
qed

lemma scan_int_start:
  "scan_int s = Some (i, r) \<Longrightarrow> \<exists>c t. s = c # t \<and> (c = CHR ''-'' \<or> is_digit c)"
  by (cases s) (auto simp: scan_int_def is_digit_def Let_def split: if_splits list.splits)

lemma match_number_start:
  "match_number s = Some (i, f, e, r) \<Longrightarrow> \<exists>c t. s = c # t \<and> (c = CHR ''-'' \<or> is_digit c)"
  by (auto simp: match_number_def split: option.splits dest: scan_int_start)

lemma match_number_show_int: "match_number (show_int i) = Some (show_int i, [], [], [])"
  by (simp add: match_number_def scan_int_show_int scan_frac_def scan_exp_def)

subsection \<open>Strings\<close>

lemma of_char_less_256: "(of_char c :: nat) < 256"
proof -
  have "(of_char c :: nat) mod 256 = of_char c" by simp
  then show ?thesis by (metis mod_less_divisor zero_less_numeral)
qed

lemma hex_val_hex_char:
  assumes "d < 16"
  shows "hex_val (hex_char d) = Some d"
proof -
  from assms have "d = 0 \<or> d = 1 \<or> d = 2 \<or> d = 3 \<or> d = 4 \<or> d = 5 \<or> d = 6 \<or> d = 7 \<or>
      d = 8 \<or> d = 9 \<or> d = 10 \<or> d = 11 \<or> d = 12 \<or> d = 13 \<or> d = 14 \<or> d = 15"
    by arith
  then show ?thesis
    by (elim disjE) (simp_all add: hex_char_def hex_val_def)
qed

lemma hex4_hex2: "hex4 (CHR ''0'' # CHR ''0'' # hex2 c) = Some (of_char c)"
proof -
  let ?n = "of_char c :: nat"
  have "?n < 256" by (rule of_char_less_256)
  then have d: "?n div 16 < 16" "?n mod 16 < 16"
    by arith+
  have z: "hex_val (CHR ''0'') = Some 0"
    by (simp add: hex_val_def)
  show ?thesis
    by (simp add: hex2_def z hex_val_hex_char [OF d(1)] hex_val_hex_char [OF d(2)])
qed

lemma scanstring_escape_char:
  "scanstring (escape_char a c @ t) = cons_fst c (scanstring t)"
proof (cases "c = CHR 0x22 \<or> c = CHR 0x5C \<or> c = CHR 0x0A \<or> c = CHR 0x0D \<or> c = CHR 0x09 \<or>
    c = CHR 0x08 \<or> c = CHR 0x0C")
  case True
  then show ?thesis
    by (elim disjE) (simp_all add: escape_char_def unescape_def)
next
  case False
  show ?thesis
  proof (cases "(of_char c :: nat) < 32 \<or> a \<and> 127 \<le> (of_char c :: nat)")
    case True
    with False have e: "escape_char a c = CHR 0x5C # CHR ''u'' # CHR ''0'' # CHR ''0'' # hex2 c"
      by (simp add: escape_char_def)
    have "take 4 (CHR ''0'' # CHR ''0'' # hex2 c @ t) = CHR ''0'' # CHR ''0'' # hex2 c"
      by (simp add: hex2_def)
    moreover have "drop 4 (CHR ''0'' # CHR ''0'' # hex2 c @ t) = t"
      by (simp add: hex2_def)
    ultimately show ?thesis
      using of_char_less_256 [of c] by (simp add: e hex4_hex2 del: hex4.simps)
  next
    case no_escape: False
    with False have "escape_char a c = [c]"
      by (simp add: escape_char_def)
    with False no_escape show ?thesis by simp
  qed
qed

lemma scanstring_escaped:
  "scanstring (concat (map (escape_char a) s) @ CHR 0x22 # rest) = Some (s, rest)"
  by (induction s) (simp_all add: scanstring_escape_char cons_fst_def del: scanstring.simps, simp)

lemma scanstring_encode_basestring:
  "scanstring (tl (encode_basestring a s) @ rest) = Some (s, rest)"
  using scanstring_escaped [of a s rest] by (simp add: encode_basestring_def)

lemma encode_basestring_Cons:
  "encode_basestring a s = CHR 0x22 # tl (encode_basestring a s)"
  by (simp add: encode_basestring_def)

subsection \<open>White space\<close>

lemma skip_ws_newline_indent:
  "skip_ws (newline_indent level @ t) = skip_ws t"
proof -
  have "\<forall>c \<in> set (newline_indent level). is_ws c"
    by (auto simp: newline_indent_def is_ws_def)
  then show ?thesis
    by (simp add: skip_ws_def dropWhile_append)
qed

lemma skip_ws_start: "\<not> is_ws c \<Longrightarrow> skip_ws (c # t) = c # t"
  by (simp add: skip_ws_def)

subsection \<open>A \<^verbatim>\<open>dict\<close> from pairs with distinct keys\<close>

lemma dict_of_pairs_distinct_aux:
  "distinct (map fst (d @ ps)) \<Longrightarrow>
   foldl (\<lambda>d kv. dict_set d (fst kv) (snd kv)) d ps = d @ ps"
proof (induction ps arbitrary: d)
  case Nil
  then show ?case by simp
next
  case (Cons p ps)
  from Cons.prems have "fst p \<notin> fst ` set d" by auto
  then have "dict_set d (fst p) (snd p) = d @ [p]"
    by (simp add: dict_set_def)
  moreover from Cons.prems have "distinct (map fst ((d @ [p]) @ ps))" by simp
  ultimately show ?case
    using Cons.IH [of "d @ [p]"] by simp
qed

lemma dict_of_pairs_distinct: "distinct (map fst ps) \<Longrightarrow> dict_of_pairs ps = ps"
  using dict_of_pairs_distinct_aux [of "[]" ps] by (simp add: dict_of_pairs_def)

subsection \<open>Values\<close>

lemma skip_ws_text: "ws_text w \<Longrightarrow> \<not> is_ws c \<Longrightarrow> skip_ws (w @ c # t) = c # t"
  by (simp add: ws_text_def skip_ws_def dropWhile_append)

lemma number_end_is_ws: "is_ws c \<Longrightarrow> number_end (c # t)"
  unfolding is_ws_def by (elim disjE) (simp_all add: number_end_def is_digit_def)

lemma number_end_ws: "ws_text w \<Longrightarrow> c = CHR '']'' \<or> c = CHR ''}'' \<Longrightarrow> number_end (w @ c # t)"
proof (cases w)
  case Nil
  assume "c = CHR '']'' \<or> c = CHR ''}''"
  then show ?thesis
    unfolding Nil by (elim disjE) (simp_all add: number_end_def is_digit_def)
next
  case (Cons x w')
  assume "ws_text w"
  with Cons have "is_ws x" by (simp add: ws_text_def)
  then show ?thesis
    unfolding Cons using number_end_is_ws [of x "w' @ c # t"] by simp
qed

lemma number_end_comma: "number_end (CHR '','' # t)"
  by (simp add: number_end_def is_digit_def)

lemma reads_valueD:
  assumes "reads_value s v" and "number_end rest" and "length s \<le> n"
  shows "scan_once n (s @ rest) = Some (v, rest)"
  using assms by (simp add: reads_value_def)

lemma reads_value_skip: "reads_value s v \<Longrightarrow> skip_ws (s @ t) = s @ t"
  by (cases s) (auto simp: reads_value_def skip_ws_def)

lemma reads_value_not_close: "reads_value s v \<Longrightarrow> take 1 (s @ t) \<noteq> '']''"
  by (cases s) (auto simp: reads_value_def)

text \<open>The elements of a list after the first, up to the closing bracket.\<close>

lemma JSONArray_last:
  assumes "reads_value s0 v0" and "ws_text w" and "length s0 \<le> n"
  shows "JSONArray (Suc n) (s0 @ w @ CHR '']'' # rest) = Some ([v0], rest)"
proof -
  have "scan_once n (s0 @ w @ CHR '']'' # rest) = Some (v0, w @ CHR '']'' # rest)"
    using assms by (intro reads_valueD number_end_ws) simp_all
  moreover have "skip_ws (w @ CHR '']'' # rest) = CHR '']'' # rest"
    using assms(2) by (intro skip_ws_text) (simp_all add: is_ws_def)
  ultimately show ?thesis by simp
qed

lemma JSONArray_next:
  assumes "reads_value s0 v0" and "length s0 < n"
    and "JSONArray n (s1 @ t) = Some (vs, rest)" and "reads_value s1 v1"
  shows "JSONArray (Suc n) (s0 @ CHR '','' # newline_indent level @ s1 @ t) = Some (v0 # vs, rest)"
proof -
  let ?T = "CHR '','' # newline_indent level @ s1 @ t"
  have "scan_once n (s0 @ ?T) = Some (v0, ?T)"
    using assms(1,2) by (intro reads_valueD number_end_comma) simp_all
  moreover have "skip_ws ?T = ?T"
    by (simp add: skip_ws_def is_ws_def)
  moreover have "skip_ws (newline_indent level @ s1 @ t) = s1 @ t"
    using reads_value_skip [OF assms(4)] by (simp add: skip_ws_newline_indent)
  ultimately show ?thesis
    using assms(3) by (simp add: cons_fst_def)
qed

text \<open>The items of a \<^verbatim>\<open>dict\<close>, up to the closing brace.\<close>

lemma JSONObject_key:
  assumes "reads_value s0 v0" and "length s0 \<le> n" and "number_end t"
  shows "JSONObject (Suc n) (encode_basestring a k @ '': '' @ s0 @ t) =
     (if take 1 (skip_ws t) = ''}'' then Some ([(k, v0)], drop 1 (skip_ws t))
      else if take 1 (skip_ws t) = '','' then cons_fst (k, v0) (JSONObject n (skip_ws (drop 1 (skip_ws t))))
      else None)"
proof -
  have "scanstring (tl (encode_basestring a k) @ '': '' @ s0 @ t) = Some (k, '': '' @ s0 @ t)"
    by (rule scanstring_encode_basestring)
  moreover have "skip_ws ('': '' @ s0 @ t) = '': '' @ s0 @ t"
    by (simp add: skip_ws_def is_ws_def)
  moreover have "skip_ws (CHR '' '' # s0 @ t) = s0 @ t"
    using reads_value_skip [OF assms(1), of t] by (simp add: skip_ws_def is_ws_def)
  moreover have "scan_once n (s0 @ t) = Some (v0, t)"
    using assms by (intro reads_valueD)
  ultimately show ?thesis
    by (subst encode_basestring_Cons) simp
qed

lemma JSONObject_last:
  assumes "reads_value s0 v0" and "ws_text w" and "length s0 \<le> n"
  shows "JSONObject (Suc n) (encode_basestring a k @ '': '' @ s0 @ w @ CHR ''}'' # rest) =
     Some ([(k, v0)], rest)"
proof -
  have "skip_ws (w @ CHR ''}'' # rest) = CHR ''}'' # rest"
    using assms(2) by (intro skip_ws_text) (simp_all add: is_ws_def)
  moreover have "number_end (w @ CHR ''}'' # rest)"
    using assms(2) by (intro number_end_ws) simp_all
  ultimately show ?thesis
    using JSONObject_key [OF assms(1,3), where t = "w @ CHR ''}'' # rest" and a = a and k = k] by simp
qed

lemma JSONObject_next:
  assumes "reads_value s0 v0" and "length s0 \<le> n"
    and "JSONObject n (encode_basestring a k1 @ t) = Some (kvs, rest)"
  shows "JSONObject (Suc n)
           (encode_basestring a k @ '': '' @ s0 @ CHR '','' # newline_indent level @
            encode_basestring a k1 @ t) = Some ((k, v0) # kvs, rest)"
proof -
  let ?T = "CHR '','' # newline_indent level @ encode_basestring a k1 @ t"
  have "skip_ws ?T = ?T"
    by (simp add: skip_ws_def is_ws_def)
  moreover have "skip_ws (newline_indent level @ encode_basestring a k1 @ t) = encode_basestring a k1 @ t"
  proof -
    have "skip_ws (encode_basestring a k1 @ t) = encode_basestring a k1 @ t"
      by (simp add: encode_basestring_def skip_ws_def is_ws_def)
    then show ?thesis by (simp add: skip_ws_newline_indent)
  qed
  ultimately show ?thesis
    using JSONObject_key [where t = ?T and a = a and k = k, OF assms(1,2) number_end_comma]
      assms(3)
    by (simp add: cons_fst_def)
qed

lemma number_start_facts:
  assumes "c = CHR ''-'' \<or> is_digit c"
  shows "c \<noteq> CHR 0x22" "c \<noteq> CHR ''{''" "c \<noteq> CHR ''[''" "c \<noteq> CHR ''n''" "c \<noteq> CHR ''t''"
    "c \<noteq> CHR ''f''" "\<not> is_ws c" "c \<noteq> CHR '']''"
  using assms by (auto simp: is_digit_def is_ws_def)

lemma scan_once_number:
  assumes "match_number s = Some (i, f, e, [])" and "number_end rest"
  shows "scan_once (Suc n) (s @ rest) =
     Some (if f = [] \<and> e = [] then JInt (int_of_text i) else JFloat (i @ f @ e), rest)"
proof -
  from match_number_start [OF assms(1)] obtain c t where
    s: "s = c # t" and c: "c = CHR ''-'' \<or> is_digit c"
    by blast
  note f = number_start_facts [OF c]
  have m: "match_number (c # t @ rest) = Some (i, f, e, rest)"
    using match_number_append [OF assms] by (simp add: s)
  show ?thesis
    unfolding s using f(1-6) by (simp add: m)
qed

lemma number_starts:
  assumes "match_number s = Some (i, f, e, r)"
  shows "s \<noteq> [] \<and> \<not> is_ws (hd s) \<and> hd s \<noteq> CHR '']''"
proof -
  from match_number_start [OF assms] obtain c t where
    s: "s = c # t" and c: "c = CHR ''-'' \<or> is_digit c"
    by blast
  from number_start_facts(7,8) [OF c] show ?thesis by (simp add: s)
qed

lemma reads_JNull: "reads_value ''null'' JNull"
  unfolding reads_value_def
proof (intro conjI allI impI)
  fix n rest assume "length ''null'' \<le> n"
  then obtain n' where "n = Suc n'" by (cases n) auto
  then show "scan_once n (''null'' @ rest) = Some (JNull, rest)" by simp
qed (simp_all add: is_ws_def)

lemma reads_JBool: "reads_value (if b then ''true'' else ''false'') (JBool b)"
  unfolding reads_value_def
proof (intro conjI allI impI)
  fix n rest assume "length (if b then ''true'' else ''false'') \<le> n"
  then obtain n' where "n = Suc n'" by (cases n) (auto split: if_splits)
  then show "scan_once n ((if b then ''true'' else ''false'') @ rest) = Some (JBool b, rest)" by simp
qed (simp_all add: is_ws_def)

lemma reads_JInt: "reads_value (show_int i) (JInt i)"
  unfolding reads_value_def
proof (intro conjI allI impI)
  fix n rest assume ne: "number_end rest" and "length (show_int i) \<le> n"
  moreover have "show_int i \<noteq> []"
    using number_starts [OF match_number_show_int] by simp
  ultimately obtain n' where "n = Suc n'" by (cases n) auto
  then show "scan_once n (show_int i @ rest) = Some (JInt i, rest)"
    using scan_once_number [OF match_number_show_int ne, of n' i]
    by (simp add: int_of_text_show_int)
qed (use number_starts [OF match_number_show_int, of i] in simp_all)

lemma reads_JFloat:
  assumes "float_repr s"
  shows "reads_value (floatstr s) (JFloat s)"
proof -
  consider (nan) "s = ''nan''" | (inf) "s = ''inf''" | (ninf) "s = ''-inf''"
    | (num) i f e where "match_number s = Some (i, f, e, [])" "f \<noteq> [] \<or> e \<noteq> []"
    using assms by (auto simp: float_repr_def split: option.splits)
  then show ?thesis
  proof cases
    case nan
    have "match_number (''NaN'' @ rest) = None" for rest
      by (simp add: match_number_def scan_int_def is_digit_def)
    then have "scan_once (Suc n) (''NaN'' @ rest) = Some (JFloat ''nan'', rest)" for n rest
      by simp
    then have "scan_once n (''NaN'' @ rest) = Some (JFloat ''nan'', rest)" if "3 \<le> n" for n rest
      using that by (cases n) auto
    then show ?thesis
      by (simp add: reads_value_def nan floatstr_def is_ws_def)
  next
    case inf
    have "match_number (''Infinity'' @ rest) = None" for rest
      by (simp add: match_number_def scan_int_def is_digit_def)
    then have "scan_once (Suc n) (''Infinity'' @ rest) = Some (JFloat ''inf'', rest)" for n rest
      by simp
    then have "scan_once n (''Infinity'' @ rest) = Some (JFloat ''inf'', rest)" if "8 \<le> n" for n rest
      using that by (cases n) auto
    then show ?thesis
      by (simp add: reads_value_def inf floatstr_def is_ws_def)
  next
    case ninf
    have "match_number (''-Infinity'' @ rest) = None" for rest
      by (simp add: match_number_def scan_int_def is_digit_def)
    then have "scan_once (Suc n) (''-Infinity'' @ rest) = Some (JFloat ''-inf'', rest)" for n rest
      by simp
    then have "scan_once n (''-Infinity'' @ rest) = Some (JFloat ''-inf'', rest)" if "9 \<le> n" for n rest
      using that by (cases n) auto
    then show ?thesis
      by (simp add: reads_value_def ninf floatstr_def is_ws_def)
  next
    case num
    have sp: "s \<noteq> ''nan''" "s \<noteq> ''inf''" "s \<noteq> ''-inf''"
      using num(1) by (auto simp: match_number_def scan_int_def is_digit_def)
    then have fs: "floatstr s = s" by (simp add: floatstr_def)
    have ife: "i @ f @ e = s"
      using match_number_text [OF num(1)] by simp
    show ?thesis
      unfolding reads_value_def fs
    proof (intro conjI allI impI)
      fix n rest assume ne: "number_end rest" and "length s \<le> n"
      moreover have "s \<noteq> []" using number_starts [OF num(1)] by simp
      ultimately obtain n' where "n = Suc n'" by (cases n) auto
      then show "scan_once n (s @ rest) = Some (JFloat s, rest)"
        using scan_once_number [OF num(1) ne, of n'] num(2) ife by auto
    qed (use number_starts [OF num(1)] in simp_all)
  qed
qed

lemma reads_JStr: "reads_value (encode_basestring a s) (JStr s)"
  unfolding reads_value_def
proof (intro conjI allI impI)
  fix n rest assume "length (encode_basestring a s) \<le> n"
  then obtain n' where n: "n = Suc n'" by (cases n) (auto simp: encode_basestring_def)
  show "scan_once n (encode_basestring a s @ rest) = Some (JStr s, rest)"
    unfolding n by (subst encode_basestring_Cons) (simp add: scanstring_encode_basestring)
qed (simp_all add: encode_basestring_def is_ws_def)

lemma reads_empty_list: "reads_value ''[]'' (JArr [])"
  unfolding reads_value_def
proof (intro conjI allI impI)
  fix n rest assume "length ''[]'' \<le> n"
  then obtain n' where "n = Suc n'" by (cases n) auto
  then show "scan_once n (''[]'' @ rest) = Some (JArr [], rest)"
    by (simp add: skip_ws_def is_ws_def)
qed (simp_all add: is_ws_def)

lemma reads_empty_dict: "reads_value ''{}'' (JObj [])"
  unfolding reads_value_def
proof (intro conjI allI impI)
  fix n rest assume "length ''{}'' \<le> n"
  then obtain n' where "n = Suc n'" by (cases n) auto
  then show "scan_once n (''{}'' @ rest) = Some (JObj [], rest)"
    by (simp add: skip_ws_def is_ws_def)
qed (simp_all add: is_ws_def)

lemma ws_newline_indent: "ws_text (newline_indent level)"
  by (auto simp: ws_text_def newline_indent_def is_ws_def)

lemma scan_once_list:
  assumes "reads_value s v" and "JSONArray n (s @ t) = Some (vs, rest)"
  shows "scan_once (Suc n) (CHR ''['' # newline_indent level @ s @ t) = Some (JArr vs, rest)"
proof -
  from assms(1) obtain c s' where s: "s = c # s'" and c: "\<not> is_ws c" "c \<noteq> CHR '']''"
    by (cases s) (auto simp: reads_value_def)
  have sk: "skip_ws (newline_indent level @ c # s' @ t) = c # s' @ t"
    by (simp add: skip_ws_newline_indent skip_ws_start c)
  show ?thesis
    using assms(2) c(2) unfolding s by (simp add: sk del: JSONArray.simps)
qed

lemma scan_once_dict:
  assumes "JSONObject n (encode_basestring a k @ t) = Some (kvs, rest)"
  shows "scan_once (Suc n) (CHR ''{'' # newline_indent level @ encode_basestring a k @ t) =
     Some (JObj (dict_of_pairs kvs), rest)"
proof -
  let ?k = "tl (encode_basestring a k)"
  have sk: "skip_ws (newline_indent level @ CHR 0x22 # ?k @ t) = CHR 0x22 # ?k @ t"
    by (simp add: skip_ws_newline_indent skip_ws_start is_ws_def)
  have "JSONObject n (CHR 0x22 # ?k @ t) = Some (kvs, rest)"
    using assms by (subst (asm) encode_basestring_Cons) simp
  then show ?thesis
    by (subst encode_basestring_Cons) (simp add: sk del: JSONObject.simps)
qed

lemma iterencode_reads:
  "wf_json v \<Longrightarrow> reads_value (iterencode a level v) v"
  "wf_list xs \<Longrightarrow>
     (\<forall>s0 v0 w rest n. reads_value s0 v0 \<longrightarrow> ws_text w \<longrightarrow>
        length s0 + length (iterencode_list a level xs) \<le> n \<longrightarrow>
        JSONArray (Suc n) (s0 @ iterencode_list a level xs @ w @ CHR '']'' # rest) = Some (v0 # xs, rest))"
  "wf_items m \<Longrightarrow>
     (\<forall>k0 s0 v0 w rest n. reads_value s0 v0 \<longrightarrow> ws_text w \<longrightarrow>
        length s0 + length (iterencode_dict a level m) \<le> n \<longrightarrow>
        JSONObject (Suc n) (encode_basestring a k0 @ '': '' @ s0 @ iterencode_dict a level m @ w @ CHR ''}'' # rest) =
          Some ((k0, v0) # m, rest))"
proof (induction a level v and a level xs and a level m
    rule: iterencode_iterencode_list_iterencode_dict.induct)
  case (1 a level)
  show ?case using reads_JNull by simp
next
  case (2 a level b)
  show ?case using reads_JBool [of b] by simp
next
  case (3 a level i)
  show ?case using reads_JInt [of i] by simp
next
  case (4 a level s)
  then show ?case using reads_JFloat [of s] by simp
next
  case (5 a level s)
  show ?case using reads_JStr [of a s] by simp
next
  case (6 a level)
  show ?case using reads_empty_list by simp
next
  case (7 a level x xs)
  from "7.prems" have wf: "wf_json x" "wf_list xs" by simp_all
  let ?x = "iterencode a (Suc level) x"
  let ?xs = "iterencode_list a (Suc level) xs"
  note rx = "7.IH"(1) [OF wf(1)]
  note tail = "7.IH"(2) [OF wf(2), rule_format, OF rx ws_newline_indent]
  show ?case
    unfolding reads_value_def
  proof (intro conjI allI impI)
    fix n rest
    assume "length (iterencode a level (JArr (x # xs))) \<le> n"
    then obtain n' where n: "n = Suc (Suc n')" and n': "length ?x + length ?xs \<le> n'"
      by (cases n; cases "n - 1") (auto simp: newline_indent_def)
    have "JSONArray (Suc n') (?x @ ?xs @ newline_indent level @ CHR '']'' # rest) = Some (x # xs, rest)"
      by (rule tail [OF n'])
    from scan_once_list [OF rx this, of "Suc level"]
    show "scan_once n (iterencode a level (JArr (x # xs)) @ rest) = Some (JArr (x # xs), rest)"
      unfolding n by simp
  qed (simp_all add: is_ws_def)
next
  case (8 a level)
  show ?case using reads_empty_dict by simp
next
  case (9 a level k v m)
  from "9.prems" have wf: "wf_json v" "wf_items m" and dist: "distinct (map fst ((k, v) # m))"
    by simp_all
  let ?v = "iterencode a (Suc level) v"
  let ?m = "iterencode_dict a (Suc level) m"
  note rv = "9.IH"(1) [OF wf(1)]
  note tail = "9.IH"(2) [OF wf(2), rule_format, OF rv ws_newline_indent]
  show ?case
    unfolding reads_value_def
  proof (intro conjI allI impI)
    fix n rest
    assume "length (iterencode a level (JObj ((k, v) # m))) \<le> n"
    then obtain n' where n: "n = Suc (Suc n')" and n': "length ?v + length ?m \<le> n'"
      by (cases n; cases "n - 1") (auto simp: newline_indent_def)
    have "JSONObject (Suc n') (encode_basestring a k @ '': '' @ ?v @ ?m @ newline_indent level @ CHR ''}'' # rest) =
        Some ((k, v) # m, rest)"
      by (rule tail [OF n'])
    from scan_once_dict [OF this, of "Suc level"] dict_of_pairs_distinct [OF dist]
    show "scan_once n (iterencode a level (JObj ((k, v) # m)) @ rest) = Some (JObj ((k, v) # m), rest)"
      unfolding n by simp
  qed (simp_all add: is_ws_def)
next
  case (10 a level)
  show ?case
    using JSONArray_last by simp
next
  case (11 a level x xs)
  from "11.prems" have wf: "wf_json x" "wf_list xs" by simp_all
  let ?x = "iterencode a level x"
  note rx = "11.IH"(1) [OF wf(1)]
  show ?case
  proof (intro allI impI)
    fix s0 v0 w rest n
    assume r0: "reads_value s0 v0" and w: "ws_text w"
      and len: "length s0 + length (iterencode_list a level (x # xs)) \<le> n"
    then obtain n' where n: "n = Suc n'" and n': "length ?x + length (iterencode_list a level xs) \<le> n'"
      by (cases n) auto
    have "JSONArray n (?x @ iterencode_list a level xs @ w @ CHR '']'' # rest) = Some (x # xs, rest)"
      unfolding n by (rule "11.IH"(2) [OF wf(2), rule_format, OF rx w n'])
    moreover from len have "length s0 < n" by simp
    ultimately show "JSONArray (Suc n) (s0 @ iterencode_list a level (x # xs) @ w @ CHR '']'' # rest) =
        Some (v0 # x # xs, rest)"
      using JSONArray_next [OF r0 _ _ rx, of n "iterencode_list a level xs @ w @ CHR '']'' # rest" "x # xs" rest level]
      by simp
  qed
next
  case (12 a level)
  show ?case
    using JSONObject_last by simp
next
  case (13 a level k v m)
  from "13.prems" have wf: "wf_json v" "wf_items m" by simp_all
  let ?v = "iterencode a level v"
  note rv = "13.IH"(1) [OF wf(1)]
  show ?case
  proof (intro allI impI)
    fix k0 s0 v0 w rest n
    assume r0: "reads_value s0 v0" and w: "ws_text w"
      and len: "length s0 + length (iterencode_dict a level ((k, v) # m)) \<le> n"
    then obtain n' where n: "n = Suc n'" and n': "length ?v + length (iterencode_dict a level m) \<le> n'"
      by (cases n) auto
    have "JSONObject n (encode_basestring a k @ '': '' @ ?v @ iterencode_dict a level m @ w @ CHR ''}'' # rest) =
        Some ((k, v) # m, rest)"
      unfolding n by (rule "13.IH"(2) [OF wf(2), rule_format, OF rv w n'])
    moreover from len have "length s0 \<le> n" by simp
    ultimately show "JSONObject (Suc n)
        (encode_basestring a k0 @ '': '' @ s0 @ iterencode_dict a level ((k, v) # m) @ w @ CHR ''}'' # rest) =
        Some ((k0, v0) # (k, v) # m, rest)"
      using JSONObject_next [OF r0, of n a k "'': '' @ ?v @ iterencode_dict a level m @ w @ CHR ''}'' # rest"
          "(k, v) # m" rest k0 level]
      by simp
  qed
qed

lemma loads_dumps:
  assumes "wf_json data"
  shows "json_loads (dumps a data) = Some data"
proof -
  note r = iterencode_reads(1) [OF assms, of a 0]
  have "scan_once (Suc (length (dumps a data))) (dumps a data @ []) = Some (data, [])"
    using r by (intro reads_valueD) (simp_all add: dumps_def number_end_def)
  moreover have "skip_ws (dumps a data) = dumps a data"
    using reads_value_skip [OF r, of "[]"] by (simp add: dumps_def)
  ultimately show ?thesis
    by (simp add: json_loads_def skip_ws_def)
qed

subsection \<open>The claim about the JSON export\<close>

lemma non_ascii_verbatim: "128 \<le> (of_char c :: nat) \<Longrightarrow> escape_char False c = [c]"
proof -
  assume a: "128 \<le> (of_char c :: nat)"
  then have "c \<noteq> CHR 0x22" "c \<noteq> CHR 0x5C" "c \<noteq> CHR 0x0A" "c \<noteq> CHR 0x0D" "c \<noteq> CHR 0x09"
    "c \<noteq> CHR 0x08" "c \<noteq> CHR 0x0C"
    by auto
  with a show ?thesis by (simp add: escape_char_def)
qed

text \<open>
  C7. \<^verbatim>\<open>export_to_json\<close> writes the text of \<^verbatim>\<open>json.dump(data, f, ensure_ascii=False, indent=2)\<close>
  to the file, and \<^verbatim>\<open>json.loads\<close> reads that text back as the structure that was written:
  the same values in the same order, every key of the top level among them.
\<close>

theorem json_export_round_trip:
  assumes "wf_json data"
  shows "fst (export_to_json data filename w) = Done \<and>
         files (snd (export_to_json data filename w)) filename = Some (dumps False data) \<and>
         json_loads (dumps False data) = Some data"
  using loads_dumps [OF assms, of False] by (simp add: export_to_json_def write_file_def print_def)

theorem json_export_round_trip_witness:
  \<open>wf_json (JObj [(''voices'', JArr [JObj [(''name'', JStr [CHR 0xE9]), (''stability'', JFloat ''0.5'')]]),
                  (''has_more'', JBool False)]) \<and>
   files (snd (export_to_json
      (JObj [(''voices'', JArr [JObj [(''name'', JStr [CHR 0xE9]), (''stability'', JFloat ''0.5'')]]),
             (''has_more'', JBool False)]) ''voices.json'' world0)) ''voices.json'' =
     Some (''{'' @ [CHR 0x0A] @
           ''  "voices": ['' @ [CHR 0x0A] @
           ''    {'' @ [CHR 0x0A] @
           ''      "name": "'' @ [CHR 0xE9] @ ''",'' @ [CHR 0x0A] @
           ''      "stability": 0.5'' @ [CHR 0x0A] @
           ''    }'' @ [CHR 0x0A] @
           ''  ],'' @ [CHR 0x0A] @
           ''  "has_more": false'' @ [CHR 0x0A] @
           ''}'') \<and>
   json_loads (dumps False
      (JObj [(''voices'', JArr [JObj [(''name'', JStr [CHR 0xE9]), (''stability'', JFloat ''0.5'')]]),
             (''has_more'', JBool False)])) =
     Some (JObj [(''voices'', JArr [JObj [(''name'', JStr [CHR 0xE9]), (''stability'', JFloat ''0.5'')]]),
                 (''has_more'', JBool False)])\<close>
proof -
  have wf: "wf_json (JObj [(''voices'', JArr [JObj [(''name'', JStr [CHR 0xE9]), (''stability'', JFloat ''0.5'')]]),
                  (''has_more'', JBool False)])"
    by (simp add: float_repr_def match_number_def scan_int_def scan_frac_def scan_exp_def is_digit_def)
  have d: \<open>dumps False (JObj [(''voices'', JArr [JObj [(''name'', JStr [CHR 0xE9]), (''stability'', JFloat ''0.5'')]]),
                  (''has_more'', JBool False)]) =
      ''{'' @ [CHR 0x0A] @
           ''  "voices": ['' @ [CHR 0x0A] @
           ''    {'' @ [CHR 0x0A] @
           ''      "name": "'' @ [CHR 0xE9] @ ''",'' @ [CHR 0x0A] @
           ''      "stability": 0.5'' @ [CHR 0x0A] @
           ''    }'' @ [CHR 0x0A] @
           ''  ],'' @ [CHR 0x0A] @
           ''  "has_more": false'' @ [CHR 0x0A] @
           ''}''\<close>
    by (simp add: dumps_def newline_indent_def encode_basestring_def escape_char_def floatstr_def)
  show ?thesis
    using json_export_round_trip [OF wf, of "''voices.json''" world0] wf
    by (simp only: d)
qed

end
